theory Spec2Isabelle
  imports Complex_Main
begin

section \<open>Tensor entries\<close>

text \<open>
  The entries of a tensor are modelled in exact arithmetic: a finite entry is a real
  number, and the three special values of the floating-point format are kept, because
  the source produces them without raising (the square root of a negative number is
  \<open>NaN\<close>, a division by zero is an infinity or \<open>NaN\<close>). The operations on entries
  are exact: rounding and overflow are left to the section on rounded arithmetic, which
  rounds the result of each operation. Zero carries no sign (it behaves as \<open>+0\<close>).
\<close>

datatype fl = Fin real | PInf | NInf | NaN

fun fl_neg :: "fl \<Rightarrow> fl" where
  "fl_neg (Fin a) = Fin (- a)"
| "fl_neg PInf = NInf"
| "fl_neg NInf = PInf"
| "fl_neg NaN = NaN"

fun fl_add :: "fl \<Rightarrow> fl \<Rightarrow> fl" where
  "fl_add (Fin a) (Fin b) = Fin (a + b)"
| "fl_add NaN _ = NaN"
| "fl_add _ NaN = NaN"
| "fl_add PInf NInf = NaN"
| "fl_add NInf PInf = NaN"
| "fl_add PInf _ = PInf"
| "fl_add _ PInf = PInf"
| "fl_add NInf _ = NInf"
| "fl_add _ NInf = NInf"

definition fl_sub :: "fl \<Rightarrow> fl \<Rightarrow> fl" where
  "fl_sub a b = fl_add a (fl_neg b)"

text \<open>The sign of an infinite product or quotient: \<open>positive\<close> says whether a finite factor counts as positive.\<close>

fun fl_signed_inf :: "bool \<Rightarrow> fl" where
  "fl_signed_inf True = PInf"
| "fl_signed_inf False = NInf"

fun fl_mul :: "fl \<Rightarrow> fl \<Rightarrow> fl" where
  "fl_mul (Fin a) (Fin b) = Fin (a * b)"
| "fl_mul NaN _ = NaN"
| "fl_mul _ NaN = NaN"
| "fl_mul PInf (Fin b) = (if b = 0 then NaN else fl_signed_inf (0 < b))"
| "fl_mul NInf (Fin b) = (if b = 0 then NaN else fl_signed_inf (b < 0))"
| "fl_mul (Fin a) PInf = (if a = 0 then NaN else fl_signed_inf (0 < a))"
| "fl_mul (Fin a) NInf = (if a = 0 then NaN else fl_signed_inf (a < 0))"
| "fl_mul PInf PInf = PInf"
| "fl_mul NInf NInf = PInf"
| "fl_mul PInf NInf = NInf"
| "fl_mul NInf PInf = NInf"

fun fl_div :: "fl \<Rightarrow> fl \<Rightarrow> fl" where
  "fl_div (Fin a) (Fin b) =
     (if b \<noteq> 0 then Fin (a / b) else if a = 0 then NaN else fl_signed_inf (0 < a))"
| "fl_div NaN _ = NaN"
| "fl_div _ NaN = NaN"
| "fl_div (Fin a) PInf = Fin 0"
| "fl_div (Fin a) NInf = Fin 0"
| "fl_div PInf (Fin b) = fl_signed_inf (0 \<le> b)"
| "fl_div NInf (Fin b) = fl_signed_inf (b < 0)"
| "fl_div PInf PInf = NaN"
| "fl_div PInf NInf = NaN"
| "fl_div NInf PInf = NaN"
| "fl_div NInf NInf = NaN"

fun fl_sqrt :: "fl \<Rightarrow> fl" where
  "fl_sqrt (Fin a) = (if a < 0 then NaN else Fin (sqrt a))"
| "fl_sqrt PInf = PInf"
| "fl_sqrt NInf = NaN"
| "fl_sqrt NaN = NaN"

fun fl_abs :: "fl \<Rightarrow> fl" where
  "fl_abs (Fin a) = Fin \<bar>a\<bar>"
| "fl_abs PInf = PInf"
| "fl_abs NInf = PInf"
| "fl_abs NaN = NaN"

text \<open>The comparison \<open>a <= b\<close>: false as soon as one side is \<open>NaN\<close>.\<close>

fun fl_le :: "fl \<Rightarrow> fl \<Rightarrow> bool" where
  "fl_le (Fin a) (Fin b) = (a \<le> b)"
| "fl_le NaN _ = False"
| "fl_le _ NaN = False"
| "fl_le NInf _ = True"
| "fl_le _ PInf = True"
| "fl_le PInf _ = False"
| "fl_le _ NInf = False"

text \<open>The comparison \<open>a > tol\<close> of a tensor entry with a finite Python float.\<close>

fun fl_gt :: "fl \<Rightarrow> real \<Rightarrow> bool" where
  "fl_gt (Fin a) tol = (tol < a)"
| "fl_gt PInf tol = True"
| "fl_gt NInf tol = False"
| "fl_gt NaN tol = False"

section \<open>Tensor operations\<close>

text \<open>
  A vector is the list of its entries, a matrix the list of its rows. The operations
  below are the torch operations the source calls, on tensors of the documented shapes
  (a \<open>k \<times> n\<close> matrix has \<open>k \<ge> 1\<close> rows of length \<open>n\<close>); torch would broadcast or
  raise on other shapes, which is not modelled.
\<close>

type_synonym vec = "fl list"
type_synonym mat = "fl list list"

datatype error = MaxOfEmptyTensor | NotPositiveDefinite | NegativeDimension

definition reciprocal :: "vec \<Rightarrow> vec" where
  "reciprocal v = map (fl_div (Fin 1)) v"

definition abs_t :: "vec \<Rightarrow> vec" where
  "abs_t v = map fl_abs v"

text \<open>
  The reductions \<open>max\<close> scan from the left and replace the running maximum when
  \<open>\<not> (value <= theMax)\<close>; they stop at the first \<open>NaN\<close>. The reduction over all
  entries raises on a tensor with no entry.
\<close>

definition max_step :: "fl \<Rightarrow> fl \<Rightarrow> fl" where
  "max_step theMax v = (if theMax = NaN then NaN else if \<not> fl_le v theMax then v else theMax)"

definition max_t :: "vec \<Rightarrow> error + fl" where
  "max_t v = (case v of [] \<Rightarrow> Inl MaxOfEmptyTensor | x # xs \<Rightarrow> Inr (foldl max_step x xs))"

definition div_t :: "vec \<Rightarrow> fl \<Rightarrow> vec" where
  "div_t v c = map (\<lambda>x. fl_div x c) v"

definition mul_scalar :: "vec \<Rightarrow> fl \<Rightarrow> vec" where
  "mul_scalar v c = map (\<lambda>x. fl_mul x c) v"

definition mul_t :: "vec \<Rightarrow> vec \<Rightarrow> vec" where
  "mul_t u v = map2 fl_mul u v"

definition sub_t :: "vec \<Rightarrow> vec \<Rightarrow> vec" where
  "sub_t u v = map2 fl_sub u v"

primrec sum_t :: "vec \<Rightarrow> fl" where
  "sum_t [] = Fin 0"
| "sum_t (x # xs) = fl_add x (sum_t xs)"

definition dot :: "vec \<Rightarrow> vec \<Rightarrow> fl" where
  "dot u v = sum_t (mul_t u v)"

definition ncols :: "mat \<Rightarrow> nat" where
  "ncols A = (case A of [] \<Rightarrow> 0 | r # _ \<Rightarrow> length r)"

definition transpose_t :: "mat \<Rightarrow> mat" where
  "transpose_t A = map (\<lambda>j. map (\<lambda>r. r ! j) A) [0..<ncols A]"

definition matmul :: "mat \<Rightarrow> mat \<Rightarrow> mat" where
  "matmul A B = map (\<lambda>r. map (dot r) (transpose_t B)) A"

definition matvec :: "mat \<Rightarrow> vec \<Rightarrow> vec" where
  "matvec A v = map (\<lambda>r. dot r v) A"

definition eye :: "nat \<Rightarrow> mat" where
  "eye k = map (\<lambda>i. map (\<lambda>j. if i = j then Fin 1 else Fin 0) [0..<k]) [0..<k]"

definition add_mat :: "mat \<Rightarrow> mat \<Rightarrow> mat" where
  "add_mat A B = map2 (map2 fl_add) A B"

section \<open>Cholesky factorisation and the solve with its factor\<close>

text \<open>
  Modelled from the spec: \<open>torch.cholesky\<close> and \<open>torch.potrs\<close> are library routines
  outside this repository. \<open>cholesky\<close> returns the lower-triangular factor \<open>C\<close> with
  \<open>C C\<^sup>T = M\<close>, reading the lower triangle of \<open>M\<close>, and raises when a pivot is not
  positive: the first pivot is the first diagonal entry, the first column is divided by
  its square root, and the factorisation continues on the remaining block less the
  outer product of that column.
\<close>

fun fl_pos :: "fl \<Rightarrow> bool" where
  "fl_pos (Fin a) = (0 < a)"
| "fl_pos PInf = True"
| "fl_pos NInf = False"
| "fl_pos NaN = False"

definition schur_block :: "mat \<Rightarrow> vec \<Rightarrow> mat" where
  "schur_block rs c = map2 (\<lambda>row ci. sub_t (tl row) (mul_scalar c ci)) rs c"

function cholesky :: "mat \<Rightarrow> error + mat" where
  "cholesky [] = Inr []"
| "cholesky (r # rs) =
     (if \<not> fl_pos (hd r) then Inl NotPositiveDefinite
      else let l = fl_sqrt (hd r);
               c = map (\<lambda>row. fl_div (hd row) l) rs
           in case cholesky (schur_block rs c) of
                Inl e \<Rightarrow> Inl e
              | Inr C \<Rightarrow> Inr ((l # replicate (length rs) (Fin 0)) # map2 (#) c C))"
  by pat_completeness auto
termination
  by (relation "measure length") (auto simp: schur_block_def)

text \<open>
  \<open>potrs B C\<close> solves \<open>(C C\<^sup>T) X = B\<close> for the lower-triangular \<open>C\<close>: forward
  substitution with \<open>C\<close>, then back substitution with \<open>C\<^sup>T\<close>, on all columns of
  \<open>B\<close> at once (a row of \<open>B\<close> is handled as a vector).
\<close>

fun forward_subst :: "mat \<Rightarrow> mat \<Rightarrow> mat" where
  "forward_subst (cr # C) (b # B) =
     (let y = div_t b (hd cr)
      in y # forward_subst (map tl C) (map2 (\<lambda>row bi. sub_t bi (mul_scalar y (hd row))) C B))"
| "forward_subst _ _ = []"

primrec weighted_rows :: "vec \<Rightarrow> mat \<Rightarrow> vec \<Rightarrow> vec" where
  "weighted_rows [] X acc = acc"
| "weighted_rows (c # cs) X acc =
     (case X of [] \<Rightarrow> acc | x # X' \<Rightarrow> weighted_rows cs X' (sub_t acc (mul_scalar x c)))"

fun back_subst :: "mat \<Rightarrow> mat \<Rightarrow> mat" where
  "back_subst (cr # C) (y # Y) =
     (let X = back_subst (map tl C) Y
      in div_t (weighted_rows (map hd C) X y) (hd cr) # X)"
| "back_subst _ _ = []"

definition potrs :: "mat \<Rightarrow> mat \<Rightarrow> mat" where
  "potrs B C = back_subst C (forward_subst C B)"

section \<open>The Woodbury factor and solve\<close>

text \<open>
  \<open>woodbury_factor\<close>: the half-precision branch of the source differs from the other
  one by its casts only, which are the identity in exact arithmetic; the printed
  diagnostic is no part of the result.
\<close>

definition scaled_inv_shift :: "vec \<Rightarrow> error + (vec \<times> fl)" where
  "scaled_inv_shift shift =
     (let inv_shift = reciprocal shift
      in case max_t (abs_t inv_shift) of
           Inl e \<Rightarrow> Inl e
         | Inr scale \<Rightarrow> Inr (div_t inv_shift scale, scale))"

definition woodbury_factor :: "mat \<Rightarrow> vec \<Rightarrow> error + mat" where
  "woodbury_factor low_rank_mat shift =
     (let k = length low_rank_mat
      in case scaled_inv_shift shift of
           Inl e \<Rightarrow> Inl e
         | Inr (inv_shift, scale) \<Rightarrow>
             (let shifted_mat =
                    matmul low_rank_mat
                      (map2 (\<lambda>s row. mul_scalar row s) inv_shift (transpose_t low_rank_mat));
                  shifted_mat = add_mat shifted_mat (map (\<lambda>row. div_t row scale) (eye k))
              in case cholesky shifted_mat of
                   Inl e \<Rightarrow> Inl e
                 | Inr chol \<Rightarrow> Inr (potrs low_rank_mat chol)))"

text \<open>
  The right-hand side of \<open>woodbury_solve\<close> is a vector of size \<open>n\<close> (\<open>Vec\<close>) or, when
  \<open>vector.ndimension() > 1\<close>, an \<open>n \<times> t\<close> matrix (\<open>Mat\<close>) whose columns are right-hand
  sides. In the second case \<open>inv_shift\<close> is unsqueezed to a column, so that its product
  with an \<open>n \<times> t\<close> matrix multiplies row \<open>i\<close> by \<open>inv_shift[i]\<close>, and \<open>@\<close> is the
  product of two matrices instead of the product of a matrix with a vector.
\<close>

datatype rhs = Vec vec | Mat mat

definition woodbury_solve :: "rhs \<Rightarrow> mat \<Rightarrow> mat \<Rightarrow> vec \<Rightarrow> error + rhs" where
  "woodbury_solve vector low_rank_mat factor shift =
     (case scaled_inv_shift shift of
        Inl e \<Rightarrow> Inl e
      | Inr (inv_shift, scale) \<Rightarrow>
          (case vector of
             Mat B \<Rightarrow>
               (let shifted_vector = map2 (\<lambda>s row. mul_scalar row s) inv_shift B;
                    diff = map2 (\<lambda>s row. mul_scalar row s) inv_shift
                             (matmul (matmul (transpose_t low_rank_mat) factor) shifted_vector);
                    res = map2 sub_t shifted_vector diff
                in Inr (Mat (map (\<lambda>row. mul_scalar row scale) res)))
           | Vec b \<Rightarrow>
               (let shifted_vector = mul_t inv_shift b;
                    diff = mul_t inv_shift
                             (matvec (matmul (transpose_t low_rank_mat) factor) shifted_vector);
                    res = sub_t shifted_vector diff
                in Inr (Vec (mul_scalar res scale)))))"

section \<open>Rounded arithmetic\<close>

text \<open>
  Floating-point arithmetic computes the exact result of each operation and rounds it.
  \<open>rd rnd\<close> applies the rounding \<open>rnd\<close> to a finite result and keeps a special
  value. \<open>binary64\<close> is the rounding of the double-precision format: to the nearest
  number with a significand of 53 bits, a tie to the even significand; below
  \<open>2\<^sup>-\<^sup>1\<^sup>0\<^sup>2\<^sup>2\<close> the spacing stays \<open>2\<^sup>-\<^sup>1\<^sup>0\<^sup>7\<^sup>4\<close>, and a rounded value of magnitude
  \<open>2\<^sup>1\<^sup>0\<^sup>2\<^sup>4\<close> or more is an infinity.
\<close>

fun rd :: "(real \<Rightarrow> fl) \<Rightarrow> fl \<Rightarrow> fl" where
  "rd rnd (Fin a) = rnd a"
| "rd rnd PInf = PInf"
| "rd rnd NInf = NInf"
| "rd rnd NaN = NaN"

definition round_even :: "real \<Rightarrow> int" where
  "round_even x =
     (let f = \<lfloor>x\<rfloor>; d = x - of_int f
      in if d < 1 / 2 then f else if 1 / 2 < d then f + 1 else if even f then f else f + 1)"

definition binary64 :: "real \<Rightarrow> fl" where
  "binary64 x =
     (if x = 0 then Fin 0
      else let e = max (\<lfloor>log 2 \<bar>x\<bar>\<rfloor> - 52) (- 1074);
               y = of_int (round_even (x / 2 powr of_int e)) * 2 powr of_int e
           in if 2 ^ 1024 \<le> \<bar>y\<bar> then fl_signed_inf (0 < x) else Fin y)"

text \<open>
  \<open>woodbury_factor_rd rnd\<close> is \<open>woodbury_factor\<close> with the result of every arithmetic
  operation rounded by \<open>rnd\<close>, and so are the operations it calls: the entries of a
  product or quotient of tensors, each product and each partial sum of a matrix product
  (summed in the order of \<open>sum_t\<close>), and each square root, quotient, product and
  difference of the factorisation and of the two substitutions. With \<open>rnd = Fin\<close>
  nothing is rounded.
\<close>

primrec sum_t_rd :: "(real \<Rightarrow> fl) \<Rightarrow> vec \<Rightarrow> fl" where
  "sum_t_rd rnd [] = Fin 0"
| "sum_t_rd rnd (x # xs) = rd rnd (fl_add x (sum_t_rd rnd xs))"

definition dot_rd :: "(real \<Rightarrow> fl) \<Rightarrow> vec \<Rightarrow> vec \<Rightarrow> fl" where
  "dot_rd rnd u v = sum_t_rd rnd (map (rd rnd) (mul_t u v))"

definition matmul_rd :: "(real \<Rightarrow> fl) \<Rightarrow> mat \<Rightarrow> mat \<Rightarrow> mat" where
  "matmul_rd rnd A B = map (\<lambda>r. map (dot_rd rnd r) (transpose_t B)) A"

definition schur_block_rd :: "(real \<Rightarrow> fl) \<Rightarrow> mat \<Rightarrow> vec \<Rightarrow> mat" where
  "schur_block_rd rnd rs c =
     map2 (\<lambda>row ci. map (rd rnd) (sub_t (tl row) (map (rd rnd) (mul_scalar c ci)))) rs c"

function cholesky_rd :: "(real \<Rightarrow> fl) \<Rightarrow> mat \<Rightarrow> error + mat" where
  "cholesky_rd rnd [] = Inr []"
| "cholesky_rd rnd (r # rs) =
     (if \<not> fl_pos (hd r) then Inl NotPositiveDefinite
      else let l = rd rnd (fl_sqrt (hd r));
               c = map (\<lambda>row. rd rnd (fl_div (hd row) l)) rs
           in case cholesky_rd rnd (schur_block_rd rnd rs c) of
                Inl e \<Rightarrow> Inl e
              | Inr C \<Rightarrow> Inr ((l # replicate (length rs) (Fin 0)) # map2 (#) c C))"
  by pat_completeness auto
termination
  by (relation "measure (\<lambda>(rnd, A). length A)") (auto simp: schur_block_rd_def)

fun forward_subst_rd :: "(real \<Rightarrow> fl) \<Rightarrow> mat \<Rightarrow> mat \<Rightarrow> mat" where
  "forward_subst_rd rnd (cr # C) (b # B) =
     (let y = map (rd rnd) (div_t b (hd cr))
      in y # forward_subst_rd rnd (map tl C)
               (map2 (\<lambda>row bi. map (rd rnd) (sub_t bi (map (rd rnd) (mul_scalar y (hd row))))) C B))"
| "forward_subst_rd rnd _ _ = []"

primrec weighted_rows_rd :: "(real \<Rightarrow> fl) \<Rightarrow> vec \<Rightarrow> mat \<Rightarrow> vec \<Rightarrow> vec" where
  "weighted_rows_rd rnd [] X acc = acc"
| "weighted_rows_rd rnd (c # cs) X acc =
     (case X of
        [] \<Rightarrow> acc
      | x # X' \<Rightarrow>
          weighted_rows_rd rnd cs X' (map (rd rnd) (sub_t acc (map (rd rnd) (mul_scalar x c)))))"

fun back_subst_rd :: "(real \<Rightarrow> fl) \<Rightarrow> mat \<Rightarrow> mat \<Rightarrow> mat" where
  "back_subst_rd rnd (cr # C) (y # Y) =
     (let X = back_subst_rd rnd (map tl C) Y
      in map (rd rnd) (div_t (weighted_rows_rd rnd (map hd C) X y) (hd cr)) # X)"
| "back_subst_rd rnd _ _ = []"

definition potrs_rd :: "(real \<Rightarrow> fl) \<Rightarrow> mat \<Rightarrow> mat \<Rightarrow> mat" where
  "potrs_rd rnd B C = back_subst_rd rnd C (forward_subst_rd rnd C B)"

definition scaled_inv_shift_rd :: "(real \<Rightarrow> fl) \<Rightarrow> vec \<Rightarrow> error + (vec \<times> fl)" where
  "scaled_inv_shift_rd rnd shift =
     (let inv_shift = map (rd rnd) (reciprocal shift)
      in case max_t (abs_t inv_shift) of
           Inl e \<Rightarrow> Inl e
         | Inr scale \<Rightarrow> Inr (map (rd rnd) (div_t inv_shift scale), scale))"

definition woodbury_factor_rd :: "(real \<Rightarrow> fl) \<Rightarrow> mat \<Rightarrow> vec \<Rightarrow> error + mat" where
  "woodbury_factor_rd rnd low_rank_mat shift =
     (let k = length low_rank_mat
      in case scaled_inv_shift_rd rnd shift of
           Inl e \<Rightarrow> Inl e
         | Inr (inv_shift, scale) \<Rightarrow>
             (let shifted_mat =
                    matmul_rd rnd low_rank_mat
                      (map2 (\<lambda>s row. map (rd rnd) (mul_scalar row s)) inv_shift
                         (transpose_t low_rank_mat));
                  shifted_mat =
                    map (map (rd rnd))
                      (add_mat shifted_mat (map (\<lambda>row. map (rd rnd) (div_t row scale)) (eye k)))
              in case cholesky_rd rnd shifted_mat of
                   Inl e \<Rightarrow> Inl e
                 | Inr chol \<Rightarrow> Inr (potrs_rd rnd low_rank_mat chol)))"

section \<open>Pivoted Cholesky\<close>

text \<open>
  \<open>gather xs idx\<close> reads \<open>xs\<close> at the indices \<open>idx\<close>; \<open>scatter xs idx vs\<close> is the
  in-place \<open>scatter_\<close>: it writes \<open>vs\<close> into \<open>xs\<close> at the indices \<open>idx\<close>, from
  left to right. The indices come from the permutation and are in range.
\<close>

definition gather :: "'a list \<Rightarrow> nat list \<Rightarrow> 'a list" where
  "gather xs idx = map (\<lambda>i. xs ! i) idx"

primrec scatter :: "'a list \<Rightarrow> nat list \<Rightarrow> 'a list \<Rightarrow> 'a list" where
  "scatter xs [] vs = xs"
| "scatter xs (i # idx) vs =
     (case vs of [] \<Rightarrow> xs | v # vs' \<Rightarrow> scatter (xs[i := v]) idx vs')"

text \<open>
  \<open>torch.max(x, -1)\<close> returns the maximum and its index: the scan starts with the first
  entry, replaces the running maximum at \<open>i\<close> when \<open>\<not> (value <= theMax)\<close>, so the
  first of several equal maxima wins, and stops at the first \<open>NaN\<close>. The reduced
  dimension is never empty here: the loop runs only while \<open>m < max_iter \<le> n\<close>.
\<close>

fun max_dim_from :: "fl \<Rightarrow> nat \<Rightarrow> nat \<Rightarrow> vec \<Rightarrow> fl \<times> nat" where
  "max_dim_from theMax theIndex i [] = (theMax, theIndex)"
| "max_dim_from theMax theIndex i (v # vs) =
     (if theMax = NaN then (theMax, theIndex)
      else if \<not> fl_le v theMax then max_dim_from v i (Suc i) vs
      else max_dim_from theMax theIndex (Suc i) vs)"

fun max_dim :: "vec \<Rightarrow> fl \<times> nat" where
  "max_dim (x # xs) = max_dim_from x 0 1 xs"

definition norm1 :: "vec \<Rightarrow> fl" where
  "norm1 v = sum_t (abs_t v)"

definition sum_rows :: "nat \<Rightarrow> mat \<Rightarrow> vec" where
  "sum_rows len rows = foldr (map2 fl_add) rows (replicate len (Fin 0))"

text \<open>
  Modelled from the spec: \<open>NonLazyTensor.diag\<close> is not among the sources; for a dense
  matrix it supplies the diagonal as a tensor of its own.
\<close>

definition diag_t :: "mat \<Rightarrow> vec" where
  "diag_t A = map (\<lambda>i. A ! i ! i) [0..<ncols A]"

text \<open>
  The state of one batch element: the matrix (only read), the working diagonal, the
  permutation, the factor \<open>L\<close> and the element's entry of \<open>errors\<close>. The batch is the
  list of its elements, the batch dimensions flattened; an unbatched matrix is a batch
  of one. The list of a batch with no element does not carry the shape of its matrices,
  which is read as \<open>0 \<times> 0\<close>. The matrix is a dense tensor: the branches of the source
  for a \<open>LazyTensor\<close>, a class that is not among the sources, are not taken.
\<close>

record pc_elem =
  matrix :: mat
  matrix_diag :: vec
  permutation :: "nat list"
  L :: mat
  errors :: fl

text \<open>One pass through the loop body for one batch element, \<open>n = matrix_shape[-1]\<close>.\<close>

definition pc_step :: "nat \<Rightarrow> nat \<Rightarrow> pc_elem \<Rightarrow> pc_elem" where
  "pc_step n m st =
     (let permuted_diags = gather (matrix_diag st) (drop m (permutation st));
          (max_diag_values, max_diag_indices) = max_dim permuted_diags;
          max_diag_indices = max_diag_indices + m;
          old_pi_m = permutation st ! m;
          perm = (permutation st)[m := permutation st ! max_diag_indices];
          perm = perm[max_diag_indices := old_pi_m];
          pi_m = perm ! m;
          L_m = (L st ! m)[pi_m := fl_sqrt max_diag_values];
          row = matrix st ! pi_m
      in if m + 1 < n then
           (let pi_i = drop (m + 1) perm;
                L_m_new = gather row pi_i;
                L_m_new =
                  (if m > 0 then
                     (let L_prev = map (\<lambda>r. gather r pi_i) (take m (L st));
                          update = map (\<lambda>r. r ! pi_m) (take m (L st))
                      in sub_t L_m_new
                           (sum_rows (length pi_i) (map2 (\<lambda>u r. map (fl_mul u) r) update L_prev)))
                   else L_m_new);
                L_m_new = div_t L_m_new (L_m ! pi_m);
                L_m = scatter L_m pi_i L_m_new;
                matrix_diag_current = gather (matrix_diag st) pi_i;
                diag' = scatter (matrix_diag st) pi_i
                          (sub_t matrix_diag_current (mul_t L_m_new L_m_new))
            in st\<lparr>matrix_diag := diag', permutation := perm, L := (L st)[m := L_m],
                  errors := norm1 (gather diag' pi_i)\<rparr>)
         else st\<lparr>permutation := perm, L := (L st)[m := L_m]\<rparr>)"

text \<open>
  The loop: \<open>while m < max_iter and torch.max(errors) > error_tol\<close>; the second test is
  evaluated only when the first holds.
\<close>

function pc_loop :: "nat \<Rightarrow> real \<Rightarrow> nat \<Rightarrow> nat \<Rightarrow> pc_elem list \<Rightarrow> error + (nat \<times> pc_elem list)" where
  "pc_loop max_iter error_tol n m sts =
     (if m < max_iter then
        (case max_t (map errors sts) of
           Inl e \<Rightarrow> Inl e
         | Inr mx \<Rightarrow>
             if fl_gt mx error_tol
             then pc_loop max_iter error_tol n (Suc m) (map (pc_step n m) sts)
             else Inr (m, sts))
      else Inr (m, sts))"
  by pat_completeness auto
termination
  by (relation "measure (\<lambda>(max_iter, error_tol, n, m, sts). max_iter - m)") auto

definition pc_init :: "nat \<Rightarrow> nat \<Rightarrow> mat \<Rightarrow> pc_elem" where
  "pc_init max_iter n A =
     \<lparr>matrix = A, matrix_diag = diag_t A, permutation = [0..<n],
      L = replicate max_iter (replicate n (Fin 0)), errors = norm1 (diag_t A)\<rparr>"

text \<open>
  \<open>torch.zeros\<close> raises on a negative size, which is the only check on \<open>max_iter\<close>;
  the result is \<open>L\<close> cut to its first \<open>m\<close> rows, per batch element.
\<close>

definition pivoted_cholesky :: "mat list \<Rightarrow> int \<Rightarrow> real \<Rightarrow> error + mat list" where
  "pivoted_cholesky batch max_iter error_tol =
     (let n = (case batch of [] \<Rightarrow> 0 | A # _ \<Rightarrow> ncols A);
          max_iter = min max_iter (int n)
      in if max_iter < 0 then Inl NegativeDimension
         else case pc_loop (nat max_iter) error_tol n 0 (map (pc_init (nat max_iter) n) batch) of
                Inl e \<Rightarrow> Inl e
              | Inr (m, sts) \<Rightarrow> Inr (map (\<lambda>st. take m (L st)) sts))"

section \<open>The run of the loop and the values of one pass\<close>

text \<open>
  The states a run passes through: the initial batch state, and from a state in which
  the loop test holds the state after one more pass of every batch element.
\<close>

inductive pc_reach :: "nat \<Rightarrow> real \<Rightarrow> nat \<Rightarrow> pc_elem list \<Rightarrow> nat \<Rightarrow> pc_elem list \<Rightarrow> bool"
  for max_iter error_tol n init where
  start: "pc_reach max_iter error_tol n init 0 init"
| iter: "pc_reach max_iter error_tol n init m sts \<Longrightarrow> m < max_iter \<Longrightarrow>
         max_t (map errors sts) = Inr mx \<Longrightarrow> fl_gt mx error_tol \<Longrightarrow>
         pc_reach max_iter error_tol n init (Suc m) (map (pc_step n m) sts)"

text \<open>A list of length \<open>n\<close> that holds each index below \<open>n\<close> exactly once.\<close>

definition perm_ok :: "nat \<Rightarrow> nat list \<Rightarrow> bool" where
  "perm_ok n p = (length p = n \<and> distinct p \<and> set p = {..<n})"

definition swap_entries :: "nat \<Rightarrow> nat \<Rightarrow> 'a list \<Rightarrow> 'a list" where
  "swap_entries i j p = p[i := p ! j, j := p ! i]"

text \<open>
  The intermediate values of pass \<open>m\<close>, under the names the source gives them:
  the selected maximum and its position, the permutation after the swap, the pivot
  \<open>pi_m\<close>, the unpivoted indices \<open>pi_i\<close>, row \<open>m\<close> of \<open>L\<close> with its diagonal entry,
  the new entries of that row and the deflated diagonal.
\<close>

definition max_diag_values :: "nat \<Rightarrow> pc_elem \<Rightarrow> fl" where
  "max_diag_values m st = fst (max_dim (gather (matrix_diag st) (drop m (permutation st))))"

definition max_diag_indices :: "nat \<Rightarrow> pc_elem \<Rightarrow> nat" where
  "max_diag_indices m st = snd (max_dim (gather (matrix_diag st) (drop m (permutation st)))) + m"

definition pivot_perm :: "nat \<Rightarrow> pc_elem \<Rightarrow> nat list" where
  "pivot_perm m st = swap_entries m (max_diag_indices m st) (permutation st)"

definition pi_m :: "nat \<Rightarrow> pc_elem \<Rightarrow> nat" where
  "pi_m m st = pivot_perm m st ! m"

definition pi_i :: "nat \<Rightarrow> pc_elem \<Rightarrow> nat list" where
  "pi_i m st = drop (Suc m) (pivot_perm m st)"

definition L_m_diag :: "nat \<Rightarrow> pc_elem \<Rightarrow> vec" where
  "L_m_diag m st = (L st ! m)[pi_m m st := fl_sqrt (max_diag_values m st)]"

definition L_m_new :: "nat \<Rightarrow> pc_elem \<Rightarrow> vec" where
  "L_m_new m st =
     div_t (if m > 0
            then sub_t (gather (matrix st ! pi_m m st) (pi_i m st))
                   (sum_rows (length (pi_i m st))
                      (map2 (\<lambda>u r. map (fl_mul u) r)
                         (map (\<lambda>r. r ! pi_m m st) (take m (L st)))
                         (map (\<lambda>r. gather r (pi_i m st)) (take m (L st)))))
            else gather (matrix st ! pi_m m st) (pi_i m st))
       (L_m_diag m st ! pi_m m st)"

definition diag_deflated :: "nat \<Rightarrow> pc_elem \<Rightarrow> vec" where
  "diag_deflated m st =
     scatter (matrix_diag st) (pi_i m st)
       (sub_t (gather (matrix_diag st) (pi_i m st)) (mul_t (L_m_new m st) (L_m_new m st)))"

section \<open>Tensors as objects\<close>

text \<open>
  To state which tensors a call leaves unchanged, tensors are objects here: a tensor is
  a view of a storage, and the heap is the list of the storages allocated so far (an
  address is an index, an allocation appends). The out-of-place operations of torch
  (\<open>reciprocal\<close>, \<open>abs\<close>, \<open>max\<close>, \<open>div\<close>, \<open>mul\<close>, \<open>*\<close>, \<open>@\<close>, \<open>+\<close>, \<open>-\<close>,
  \<open>eye\<close>, \<open>cholesky\<close>, \<open>potrs\<close>, \<open>norm\<close>) allocate the storage of their result with
  \<open>new\<close>; \<open>unsqueeze\<close> and \<open>transpose\<close> return a view of the storage of their argument.
  An in-place operation would be a write into an existing storage; the two Woodbury
  routines call none. A storage is only read at the kind it was allocated with, and the
  matrices passed in are not themselves unsqueezed views.
\<close>

datatype storage = Scalar fl | Vector vec | Matrix mat

type_synonym heap = "storage list"

datatype view = Direct | Transposed | Unsqueezed

type_synonym tensor = "nat \<times> view"

definition new :: "heap \<Rightarrow> storage \<Rightarrow> tensor \<times> heap" where
  "new h s = ((length h, Direct), h @ [s])"

definition scalar_at :: "heap \<Rightarrow> tensor \<Rightarrow> fl" where
  "scalar_at h t = (case h ! fst t of Scalar x \<Rightarrow> x | Vector v \<Rightarrow> NaN | Matrix M \<Rightarrow> NaN)"

definition vec_at :: "heap \<Rightarrow> tensor \<Rightarrow> vec" where
  "vec_at h t = (case h ! fst t of Scalar x \<Rightarrow> [] | Vector v \<Rightarrow> v | Matrix M \<Rightarrow> [])"

definition mat_at :: "heap \<Rightarrow> tensor \<Rightarrow> mat" where
  "mat_at h t =
     (case h ! fst t of
        Scalar x \<Rightarrow> []
      | Vector v \<Rightarrow> []
      | Matrix M \<Rightarrow> if snd t = Transposed then transpose_t M else M)"

definition transpose_view :: "tensor \<Rightarrow> tensor" where
  "transpose_view t = (fst t, if snd t = Transposed then Direct else Transposed)"

definition unsqueeze :: "tensor \<Rightarrow> tensor" where
  "unsqueeze t = (fst t, Unsqueezed)"

text \<open>The Frobenius norm of the printed diagnostic.\<close>

definition norm_t :: "mat \<Rightarrow> fl" where
  "norm_t A = fl_sqrt (sum_t (map (\<lambda>x. fl_mul x x) (concat A)))"

text \<open>
  The scaling of the shift, with the three tensors it allocates; \<open>woodbury_factor\<close>
  and \<open>woodbury_solve\<close> on the heap follow the source line by line. \<open>ndimension\<close> is
  the number of dimensions of a tensor, read from the kind of its storage, and
  \<open>rhs_at\<close> reads a right-hand side of \<open>woodbury_solve\<close> accordingly.
\<close>

definition scaled_inv_shift_obj :: "heap \<Rightarrow> tensor \<Rightarrow> (error + tensor \<times> tensor) \<times> heap" where
  "scaled_inv_shift_obj h shift =
     (let (inv_shift, h) = new h (Vector (reciprocal (vec_at h shift)));
          (a, h) = new h (Vector (abs_t (vec_at h inv_shift)))
      in case max_t (vec_at h a) of
           Inl e \<Rightarrow> (Inl e, h)
         | Inr mx \<Rightarrow>
             (let (scale, h) = new h (Scalar mx);
                  (inv_shift, h) = new h (Vector (div_t (vec_at h inv_shift) (scalar_at h scale)))
              in (Inr (inv_shift, scale), h)))"

definition woodbury_factor_obj :: "heap \<Rightarrow> tensor \<Rightarrow> tensor \<Rightarrow> (error + tensor) \<times> heap" where
  "woodbury_factor_obj h low_rank_mat shift =
     (let k = length (mat_at h low_rank_mat)
      in case scaled_inv_shift_obj h shift of
           (Inl e, h) \<Rightarrow> (Inl e, h)
         | (Inr (inv_shift, scale), h) \<Rightarrow>
             (let inv_shift = unsqueeze inv_shift;
                  (scaled, h) =
                    new h (Matrix (map2 (\<lambda>s row. mul_scalar row s) (vec_at h inv_shift)
                                     (mat_at h (transpose_view low_rank_mat))));
                  (shifted_mat, h) = new h (Matrix (matmul (mat_at h low_rank_mat) (mat_at h scaled)));
                  (identity, h) = new h (Matrix (eye k));
                  (identity, h) =
                    new h (Matrix (map (\<lambda>row. div_t row (scalar_at h scale)) (mat_at h identity)));
                  (shifted_mat, h) = new h (Matrix (add_mat (mat_at h shifted_mat) (mat_at h identity)))
              in case cholesky (mat_at h shifted_mat) of
                   Inl e \<Rightarrow> (Inl e, h)
                 | Inr C \<Rightarrow>
                     (let (chol, h) = new h (Matrix C);
                          (R, h) = new h (Matrix (potrs (mat_at h low_rank_mat) (mat_at h chol)));
                          (prod, h) = new h (Matrix (matmul (mat_at h shifted_mat) (mat_at h R)));
                          (residual, h) =
                            new h (Matrix (map2 sub_t (mat_at h prod) (mat_at h low_rank_mat)));
                          (printed, h) = new h (Scalar (norm_t (mat_at h residual)))
                      in (Inr R, h))))"

definition ndimension :: "heap \<Rightarrow> tensor \<Rightarrow> nat" where
  "ndimension h t = (case h ! fst t of Scalar x \<Rightarrow> 0 | Vector v \<Rightarrow> 1 | Matrix M \<Rightarrow> 2)"

definition rhs_at :: "heap \<Rightarrow> tensor \<Rightarrow> rhs" where
  "rhs_at h t = (if ndimension h t > 1 then Mat (mat_at h t) else Vec (vec_at h t))"

definition woodbury_solve_obj ::
  "heap \<Rightarrow> tensor \<Rightarrow> tensor \<Rightarrow> tensor \<Rightarrow> tensor \<Rightarrow> (error + tensor) \<times> heap" where
  "woodbury_solve_obj h vector low_rank_mat factor shift =
     (case scaled_inv_shift_obj h shift of
        (Inl e, h) \<Rightarrow> (Inl e, h)
      | (Inr (inv_shift, scale), h) \<Rightarrow>
          if ndimension h vector > 1
          then (let inv_shift = unsqueeze inv_shift;
                    (shifted_vector, h) =
                      new h (Matrix (map2 (\<lambda>s row. mul_scalar row s) (vec_at h inv_shift)
                                       (mat_at h vector)));
                    (outer, h) =
                      new h (Matrix (matmul (mat_at h (transpose_view low_rank_mat)) (mat_at h factor)));
                    (applied, h) =
                      new h (Matrix (matmul (mat_at h outer) (mat_at h shifted_vector)));
                    (diff, h) =
                      new h (Matrix (map2 (\<lambda>s row. mul_scalar row s) (vec_at h inv_shift)
                                       (mat_at h applied)));
                    (res, h) =
                      new h (Matrix (map2 sub_t (mat_at h shifted_vector) (mat_at h diff)));
                    (res, h) =
                      new h (Matrix (map (\<lambda>row. mul_scalar row (scalar_at h scale)) (mat_at h res)))
                in (Inr res, h))
          else (let (shifted_vector, h) =
                      new h (Vector (mul_t (vec_at h inv_shift) (vec_at h vector)));
                    (outer, h) =
                      new h (Matrix (matmul (mat_at h (transpose_view low_rank_mat)) (mat_at h factor)));
                    (applied, h) = new h (Vector (matvec (mat_at h outer) (vec_at h shifted_vector)));
                    (diff, h) = new h (Vector (mul_t (vec_at h inv_shift) (vec_at h applied)));
                    (res, h) = new h (Vector (sub_t (vec_at h shifted_vector) (vec_at h diff)));
                    (res, h) = new h (Vector (mul_scalar (vec_at h res) (scalar_at h scale)))
                in (Inr res, h)))"


text \<open>Every storage of \<open>h\<close> is still there in \<open>h'\<close>, with the same contents.\<close>

definition unchanged :: "heap \<Rightarrow> heap \<Rightarrow> bool" where
  "unchanged h h' = (length h \<le> length h' \<and> take (length h) h' = h)"

section \<open>Real matrices: quadratic forms and the Schur complement\<close>

text \<open>
  The mathematical side of the claims on exact arithmetic: a real matrix is read by its
  entries \<open>M i j\<close>, a vector by \<open>x i\<close>. \<open>pos_def k M\<close> says that the quadratic
  form of the leading \<open>k \<times> k\<close> block is positive on every non-zero vector;
  \<open>schur M\<close> is the block that remains after the first step of a Cholesky
  factorisation.
\<close>

definition quad_form :: "nat \<Rightarrow> (nat \<Rightarrow> nat \<Rightarrow> real) \<Rightarrow> (nat \<Rightarrow> real) \<Rightarrow> real" where
  "quad_form k M x = (\<Sum>i<k. \<Sum>j<k. x i * M i j * x j)"

definition pos_def :: "nat \<Rightarrow> (nat \<Rightarrow> nat \<Rightarrow> real) \<Rightarrow> bool" where
  "pos_def k M = (\<forall>x. (\<exists>i<k. x i \<noteq> 0) \<longrightarrow> 0 < quad_form k M x)"

definition symmetric :: "nat \<Rightarrow> (nat \<Rightarrow> nat \<Rightarrow> real) \<Rightarrow> bool" where
  "symmetric k M = (\<forall>i<k. \<forall>j<k. M i j = M j i)"

definition schur :: "(nat \<Rightarrow> nat \<Rightarrow> real) \<Rightarrow> nat \<Rightarrow> nat \<Rightarrow> real" where
  "schur M i j = M (Suc i) (Suc j) - (M (Suc j) 0 / sqrt (M 0 0)) * (M (Suc i) 0 / sqrt (M 0 0))"

section \<open>Real matrices as lists\<close>

text \<open>
  A tensor whose entries are all finite is the image under \<open>Fin\<close> of a real vector or
  matrix; \<open>rmat k n A\<close> says that \<open>A\<close> has \<open>k\<close> rows of length \<open>n\<close>, \<open>ent A\<close> reads
  its entries. \<open>first_col\<close> and \<open>rschur\<close> are the column and the remaining block of one
  step of the factorisation, on real lists.
\<close>

definition rmat :: "nat \<Rightarrow> nat \<Rightarrow> real list list \<Rightarrow> bool" where
  "rmat k n A = (length A = k \<and> (\<forall>r\<in>set A. length r = n))"

definition ent :: "real list list \<Rightarrow> nat \<Rightarrow> nat \<Rightarrow> real" where
  "ent A i j = A ! i ! j"

definition first_col :: "real \<Rightarrow> real list list \<Rightarrow> real list" where
  "first_col l rs = map (\<lambda>row. hd row / l) rs"

definition rschur :: "real list list \<Rightarrow> real list \<Rightarrow> real list list" where
  "rschur rs c = map2 (\<lambda>row ci. map2 (-) (tl row) (map (\<lambda>x. x * ci) c)) rs c"

section \<open>The shifted matrix of the specification\<close>

text \<open>
  Following the words of the specification: \<open>scale = max |1 / shift|\<close>,
  \<open>inv_shift = (1 / shift) / scale\<close> and
  \<open>M = V diag(inv_shift) V\<^sup>T + I / scale\<close>, a \<open>k \<times> k\<close> matrix, on real entries.
\<close>

definition spec_scale :: "real list \<Rightarrow> real" where
  "spec_scale shift = Max ((\<lambda>x. \<bar>1 / x\<bar>) ` set shift)"

definition spec_inv_shift :: "real list \<Rightarrow> nat \<Rightarrow> real" where
  "spec_inv_shift shift t = (1 / shift ! t) / spec_scale shift"

definition spec_M :: "real list list \<Rightarrow> real list \<Rightarrow> nat \<Rightarrow> nat \<Rightarrow> real" where
  "spec_M V shift i j =
     (\<Sum>t<length shift. V ! i ! t * spec_inv_shift shift t * V ! j ! t)
       + (if i = j then 1 / spec_scale shift else 0)"

text \<open>
  The real matrices and vectors that the tensor operations of the two Woodbury routines
  compute on finite entries: the transpose, the matrix product, the shifted matrix of
  \<open>woodbury_factor\<close> and the result of \<open>woodbury_solve\<close> on a vector and on an
  \<open>n \<times> t\<close> matrix.
\<close>

definition rtranspose :: "nat \<Rightarrow> real list list \<Rightarrow> real list list" where
  "rtranspose n A = map (\<lambda>j. map (\<lambda>r. r ! j) A) [0..<n]"

definition rmatmul :: "nat \<Rightarrow> nat \<Rightarrow> nat \<Rightarrow> real list list \<Rightarrow> real list list \<Rightarrow> real list list" where
  "rmatmul k n m A B = map (\<lambda>i. map (\<lambda>j. \<Sum>t<n. A ! i ! t * B ! t ! j) [0..<m]) [0..<k]"

definition shifted_real :: "real list list \<Rightarrow> real list \<Rightarrow> real list list" where
  "shifted_real V shift =
     (let k = length V; n = length shift; c = spec_scale shift
      in map2 (map2 (+))
           (rmatmul k n k V
              (map2 (\<lambda>s row. map (\<lambda>x. x * s) row) (map (\<lambda>x. 1 / x / c) shift) (rtranspose n V)))
           (map (\<lambda>i. map (\<lambda>j. (if i = j then 1 else 0) / c) [0..<k]) [0..<k]))"

definition solve_real :: "real list list \<Rightarrow> real list list \<Rightarrow> real list \<Rightarrow> real list \<Rightarrow> real list" where
  "solve_real V R shift b =
     (let k = length V; n = length shift; c = spec_scale shift;
          d = map (\<lambda>x. 1 / x / c) shift;
          sv = map2 (*) d b;
          P = rmatmul n k n (rtranspose n V) R;
          q = map (\<lambda>i. \<Sum>t<n. P ! i ! t * sv ! t) [0..<n]
      in map (\<lambda>v. v * c) (map2 (-) sv (map2 (*) d q)))"

definition solve_real_mat ::
  "nat \<Rightarrow> real list list \<Rightarrow> real list list \<Rightarrow> real list \<Rightarrow> real list list \<Rightarrow> real list list" where
  "solve_real_mat t V R shift B =
     (let k = length V; n = length shift; c = spec_scale shift;
          d = map (\<lambda>x. 1 / x / c) shift;
          SV = map2 (\<lambda>s row. map (\<lambda>x. x * s) row) d B;
          P = rmatmul n k n (rtranspose n V) R;
          Q = rmatmul n n t P SV
      in map (map (\<lambda>v. v * c)) (map2 (map2 (-)) SV (map2 (\<lambda>s row. map (\<lambda>x. x * s) row) d Q)))"

section \<open>The pivoted factorisation on a real positive semi-definite matrix\<close>

text \<open>
  \<open>psd n M\<close>: the quadratic form of the leading \<open>n \<times> n\<close> block is nowhere negative.
\<close>

definition psd :: "nat \<Rightarrow> (nat \<Rightarrow> nat \<Rightarrow> real) \<Rightarrow> bool" where
  "psd n M = (\<forall>x. 0 \<le> quad_form n M x)"

text \<open>
  The state of one batch element when all its entries are finite, on real numbers, and
  its image \<open>embed A s\<close> among the states of the model. \<open>resid A Lr m\<close> is the residual
  \<open>A - L\<^sup>T L\<close> of the first \<open>m\<close> rows of \<open>L\<close>; \<open>rstep\<close> is one pass of the loop body on
  such a state and \<open>rinit\<close> the state before the loop.
\<close>

record rstate =
  rdiag :: "real list"
  rperm :: "nat list"
  rL :: "real list list"
  rerr :: real

definition embed :: "real list list \<Rightarrow> rstate \<Rightarrow> pc_elem" where
  "embed A s = \<lparr>matrix = map (map Fin) A, matrix_diag = map Fin (rdiag s), permutation = rperm s,
                L = map (map Fin) (rL s), errors = Fin (rerr s)\<rparr>"

definition resid :: "real list list \<Rightarrow> real list list \<Rightarrow> nat \<Rightarrow> nat \<Rightarrow> nat \<Rightarrow> real" where
  "resid A Lr m i j = A ! i ! j - (\<Sum>r<m. Lr ! r ! i * Lr ! r ! j)"

definition rstep :: "real list list \<Rightarrow> nat \<Rightarrow> nat \<Rightarrow> rstate \<Rightarrow> rstate" where
  "rstep A n m s =
     (let st = embed A s; p = pi_m m st; I = pi_i m st; mx = rdiag s ! p;
          row0 = (rL s ! m)[p := sqrt mx]
      in if m + 1 < n
         then (let new = map (\<lambda>i. resid A (rL s) m p i / sqrt mx) I;
                   dg = scatter (rdiag s) I (map2 (-) (gather (rdiag s) I) (map2 (*) new new))
               in \<lparr>rdiag = dg, rperm = pivot_perm m st, rL = (rL s)[m := scatter row0 I new],
                   rerr = sum_list (map abs (gather dg I))\<rparr>)
         else s\<lparr>rperm := pivot_perm m st, rL := (rL s)[m := row0]\<rparr>)"

definition rinit :: "nat \<Rightarrow> nat \<Rightarrow> real list list \<Rightarrow> rstate" where
  "rinit K n A = \<lparr>rdiag = map (\<lambda>i. A ! i ! i) [0..<n], rperm = [0..<n],
                  rL = replicate K (replicate n 0),
                  rerr = sum_list (map abs (map (\<lambda>i. A ! i ! i) [0..<n]))\<rparr>"

text \<open>
  The invariant of the loop before pass \<open>m\<close>, for a symmetric positive semi-definite
  \<open>A\<close>: the permutation is a bijection, the rows of \<open>L\<close> from \<open>m\<close> on are zero, the
  residual is positive semi-definite and vanishes on the rows of the pivots chosen so far,
  the working diagonal holds the diagonal of the residual at the indices not yet chosen,
  and \<open>errors\<close> is the sum of the absolute values of these entries. \<open>pass_ok\<close> adds the
  conditions under which pass \<open>m\<close> runs.
\<close>

definition pc_inv :: "real list list \<Rightarrow> nat \<Rightarrow> nat \<Rightarrow> nat \<Rightarrow> rstate \<Rightarrow> bool" where
  "pc_inv A n K m s \<longleftrightarrow>
     perm_ok n (rperm s) \<and> length (rdiag s) = n \<and> rmat K n (rL s)
   \<and> (\<forall>r. m \<le> r \<and> r < K \<longrightarrow> (\<forall>i<n. rL s ! r ! i = 0))
   \<and> psd n (resid A (rL s) m)
   \<and> (\<forall>i\<in>set (take m (rperm s)). \<forall>j<n. resid A (rL s) m i j = 0)
   \<and> (\<forall>i\<in>set (drop m (rperm s)). rdiag s ! i = resid A (rL s) m i i)
   \<and> (m < n \<longrightarrow> rerr s = sum_list (map (\<lambda>i. \<bar>rdiag s ! i\<bar>) (drop m (rperm s))))"

definition pass_ok :: "real list list \<Rightarrow> nat \<Rightarrow> nat \<Rightarrow> nat \<Rightarrow> rstate \<Rightarrow> bool" where
  "pass_ok A n K m s \<longleftrightarrow>
     rmat n n A \<and> symmetric n (ent A) \<and> pc_inv A n K m s \<and> m < K \<and> K \<le> n \<and> 0 < rerr s"

section \<open>Evaluation on concrete tensors\<close>

lemmas tensor_defs =
  reciprocal_def abs_t_def max_t_def max_step_def div_t_def mul_scalar_def mul_t_def sub_t_def
  fl_sub_def dot_def ncols_def transpose_t_def matmul_def matvec_def eye_def add_mat_def

lemma upt_3: "[0..<3] = [0, 1, 2]"
  by (simp add: upt_conv_Cons)

lemma upt_2: "[0..<2] = [0, 1]"
  by (simp add: upt_conv_Cons)

lemma example_factor:
  "woodbury_factor [[Fin 1, Fin 0, Fin 0], [Fin 0, Fin 1, Fin 0]] [Fin 1, Fin 1, Fin 1]
     = Inr [[Fin (1 / 2), Fin 0, Fin 0], [Fin 0, Fin (1 / 2), Fin 0]]"
  by (simp add: woodbury_factor_def scaled_inv_shift_def tensor_defs schur_block_def
        potrs_def Let_def upt_3 upt_2 real_sqrt_divide)

lemma example_solve:
  "woodbury_solve (Vec [Fin 2, Fin 2, Fin 1]) [[Fin 1, Fin 0, Fin 0], [Fin 0, Fin 1, Fin 0]]
       [[Fin (1 / 2), Fin 0, Fin 0], [Fin 0, Fin (1 / 2), Fin 0]] [Fin 1, Fin 1, Fin 1]
     = Inr (Vec [Fin 1, Fin 1, Fin 1])"
  by (simp add: woodbury_solve_def scaled_inv_shift_def tensor_defs Let_def upt_3 upt_2)

lemma example_solve_mat:
  "woodbury_solve (Mat [[Fin 2, Fin 4], [Fin 2, Fin 0], [Fin 1, Fin 3]])
       [[Fin 1, Fin 0, Fin 0], [Fin 0, Fin 1, Fin 0]]
       [[Fin (1 / 2), Fin 0, Fin 0], [Fin 0, Fin (1 / 2), Fin 0]] [Fin 1, Fin 1, Fin 1]
     = Inr (Mat [[Fin 1, Fin 2], [Fin 1, Fin 0], [Fin 1, Fin 3]])"
  by (simp add: woodbury_solve_def scaled_inv_shift_def tensor_defs Let_def upt_3 upt_2)

text \<open>
  Claim C3: for \<open>V = [[1,0,0],[0,1,0]]\<close>, \<open>shift = [1,1,1]\<close> and \<open>b = [2,2,1]\<close>,
  \<open>woodbury_factor\<close> returns a factor \<open>R\<close>, and \<open>woodbury_solve\<close> with that factor
  returns exactly \<open>[1,1,1]\<close>.
\<close>

theorem woodbury_example:
  "\<exists>R. woodbury_factor [[Fin 1, Fin 0, Fin 0], [Fin 0, Fin 1, Fin 0]] [Fin 1, Fin 1, Fin 1] = Inr R
      \<and> woodbury_solve (Vec [Fin 2, Fin 2, Fin 1]) [[Fin 1, Fin 0, Fin 0], [Fin 0, Fin 1, Fin 0]] R
            [Fin 1, Fin 1, Fin 1] = Inr (Vec [Fin 1, Fin 1, Fin 1])"
  using example_factor example_solve by blast

section \<open>The permutation and the frame of one pass\<close>

lemma max_dim_from_index:
  "ix < i \<Longrightarrow> snd (max_dim_from mx ix i vs) < i + length vs"
proof (induction vs arbitrary: mx ix i)
  case Nil
  then show ?case by simp
next
  case (Cons v vs)
  have "snd (max_dim_from v i (Suc i) vs) < Suc i + length vs"
    by (rule Cons.IH) simp
  moreover have "snd (max_dim_from mx ix (Suc i) vs) < Suc i + length vs"
    by (rule Cons.IH) (use Cons.prems in simp)
  ultimately show ?case using Cons.prems by simp
qed

lemma max_dim_index: "vs \<noteq> [] \<Longrightarrow> snd (max_dim vs) < length vs"
  using max_dim_from_index[of 0 1] by (cases vs) auto

lemma max_diag_indices_range:
  "m < length (permutation st) \<Longrightarrow>
     m \<le> max_diag_indices m st \<and> max_diag_indices m st < length (permutation st)"
  using max_dim_index[of "gather (matrix_diag st) (drop m (permutation st))"]
  by (auto simp: max_diag_indices_def gather_def)

lemma length_scatter: "length (scatter xs idx vs) = length xs"
  by (induction idx arbitrary: xs vs) (auto split: list.splits)

lemma scatter_outside: "i \<notin> set idx \<Longrightarrow> scatter xs idx vs ! i = xs ! i"
  by (induction idx arbitrary: xs vs) (auto split: list.splits)

lemma scatter_inside:
  "distinct idx \<Longrightarrow> length vs = length idx \<Longrightarrow> j < length idx \<Longrightarrow> idx ! j < length xs \<Longrightarrow>
     scatter xs idx vs ! (idx ! j) = vs ! j"
proof (induction idx arbitrary: xs vs j)
  case Nil
  then show ?case by simp
next
  case (Cons i idx)
  then obtain v vs' where vs: "vs = v # vs'" by (cases vs) auto
  show ?case
  proof (cases j)
    case 0
    with Cons.prems vs show ?thesis by (simp add: scatter_outside)
  next
    case (Suc j')
    with Cons.prems vs Cons.IH[of vs' j' "xs[i := v]"] show ?thesis by simp
  qed
qed

lemma permutation_pc_step:
  "permutation (pc_step n m st) = swap_entries m (max_diag_indices m st) (permutation st)"
  by (simp add: pc_step_def Let_def max_diag_indices_def swap_entries_def split: prod.splits)

lemma perm_ok_swap:
  "perm_ok n p \<Longrightarrow> i < n \<Longrightarrow> j < n \<Longrightarrow> perm_ok n (swap_entries i j p)"
  by (simp add: perm_ok_def swap_entries_def distinct_swap)

lemma perm_ok_pc_step:
  assumes "perm_ok n (permutation st)" "m < n"
  shows "perm_ok n (permutation (pc_step n m st))"
proof -
  have "m < length (permutation st)" using assms by (simp add: perm_ok_def)
  from max_diag_indices_range[OF this] assms
  have "max_diag_indices m st < n" by (simp add: perm_ok_def)
  with assms show ?thesis
    unfolding permutation_pc_step by (intro perm_ok_swap)
qed

lemma perm_ok_init: "perm_ok n (permutation (pc_init max_iter n A))"
  by (auto simp: perm_ok_def pc_init_def)

lemma pc_reach_le: "pc_reach max_iter error_tol n init m sts \<Longrightarrow> m \<le> max_iter"
  by (induction rule: pc_reach.induct) auto

lemma pc_reach_perm_ok:
  assumes "pc_reach max_iter error_tol n init m sts" "max_iter \<le> n"
    "\<forall>st \<in> set init. perm_ok n (permutation st)"
  shows "\<forall>st \<in> set sts. perm_ok n (permutation st)"
  using assms by (induction rule: pc_reach.induct) (auto intro: perm_ok_pc_step)

lemma pc_loop_reach:
  "pc_reach max_iter error_tol n init m sts \<Longrightarrow> pc_loop max_iter error_tol n m sts = Inr (m', sts') \<Longrightarrow>
     pc_reach max_iter error_tol n init m' sts'"
proof (induction max_iter error_tol n m sts rule: pc_loop.induct)
  case (1 max_iter error_tol n m sts)
  show ?case
  proof (cases "m < max_iter")
    case False
    with "1.prems" show ?thesis by simp
  next
    case True
    show ?thesis
    proof (cases "max_t (map errors sts)")
      case (Inl e)
      with True "1.prems" show ?thesis by simp
    next
      case (Inr mx)
      show ?thesis
      proof (cases "fl_gt mx error_tol")
        case False
        with True Inr "1.prems" show ?thesis by simp
      next
        case gt: True
        from "1.prems"(1) True Inr gt
        have "pc_reach max_iter error_tol n init (Suc m) (map (pc_step n m) sts)"
          by (rule pc_reach.iter)
        moreover from "1.prems"(2) True Inr gt
        have "pc_loop max_iter error_tol n (Suc m) (map (pc_step n m) sts) = Inr (m', sts')"
          by simp
        ultimately show ?thesis using "1.IH"[OF True Inr gt] by blast
      qed
    qed
  qed
qed

lemma pc_loop_returns:
  "sts \<noteq> [] \<Longrightarrow> \<exists>r. pc_loop max_iter error_tol n m sts = Inr r"
proof (induction max_iter error_tol n m sts rule: pc_loop.induct)
  case (1 max_iter error_tol n m sts)
  from "1.prems" obtain mx where mx: "max_t (map errors sts) = Inr mx"
    by (cases sts) (auto simp: max_t_def)
  show ?case
  proof (cases "m < max_iter \<and> fl_gt mx error_tol")
    case True
    with "1.IH"[of mx] mx "1.prems" show ?thesis by simp
  next
    case False
    with mx show ?thesis by auto
  qed
qed

lemma pc_step_unfold:
  "pc_step n m st =
     (if m + 1 < n
      then st\<lparr>matrix_diag := diag_deflated m st, permutation := pivot_perm m st,
              L := (L st)[m := scatter (L_m_diag m st) (pi_i m st) (L_m_new m st)],
              errors := norm1 (gather (diag_deflated m st) (pi_i m st))\<rparr>
      else st\<lparr>permutation := pivot_perm m st, L := (L st)[m := L_m_diag m st]\<rparr>)"
  by (simp add: pc_step_def Let_def diag_deflated_def L_m_new_def L_m_diag_def pi_i_def pi_m_def
      pivot_perm_def swap_entries_def max_diag_indices_def max_diag_values_def split: prod.splits)

lemma permutation_pc_step2: "permutation (pc_step n m st) = pivot_perm m st"
  by (simp add: pc_step_unfold)

lemma matrix_diag_pc_step_outside:
  "i \<notin> set (drop (Suc m) (permutation (pc_step n m st))) \<Longrightarrow>
     matrix_diag (pc_step n m st) ! i = matrix_diag st ! i"
  unfolding permutation_pc_step2
  by (simp add: pc_step_unfold diag_deflated_def pi_i_def scatter_outside)

lemma distinct_prefix_not_in_suffix:
  "distinct p \<Longrightarrow> j \<le> m \<Longrightarrow> j < length p \<Longrightarrow> p ! j \<notin> set (drop (Suc m) p)"
proof
  assume d: "distinct p" and jm: "j \<le> m" and jl: "j < length p"
    and mem: "p ! j \<in> set (drop (Suc m) p)"
  then obtain t where t: "t < length (drop (Suc m) p)" "drop (Suc m) p ! t = p ! j"
    by (auto simp: in_set_conv_nth)
  then have "p ! (Suc m + t) = p ! j" "Suc m + t < length p" by auto
  with d jl have "Suc m + t = j" by (simp add: nth_eq_iff_index_eq)
  with jm show False by simp
qed

lemma pi_m_not_in_pi_i:
  assumes "perm_ok n (permutation st)" and "m < n"
  shows "pi_m m st \<notin> set (pi_i m st)"
proof -
  have "perm_ok n (pivot_perm m st)"
    using perm_ok_pc_step[OF assms] by (simp add: permutation_pc_step2)
  with assms(2) show ?thesis
    unfolding pi_m_def pi_i_def
    by (intro distinct_prefix_not_in_suffix) (auto simp: perm_ok_def)
qed

lemma pi_m_less:
  assumes "perm_ok n (permutation st)" and "m < n"
  shows "pi_m m st < n"
proof -
  have "perm_ok n (pivot_perm m st)"
    using perm_ok_pc_step[OF assms] by (simp add: permutation_pc_step2)
  with assms(2) have "pivot_perm m st ! m \<in> {..<n}"
    unfolding perm_ok_def by (metis nth_mem)
  then show ?thesis by (simp add: pi_m_def)
qed

lemma L_pivot_entry:
  assumes "perm_ok n (permutation st)" and "m < n" and "m < length (L st)"
    and "length (L st ! m) = n"
  shows "L (pc_step n m st) ! m ! pi_m m st = fl_sqrt (max_diag_values m st)"
  using assms pi_m_not_in_pi_i[OF assms(1,2)] pi_m_less[OF assms(1,2)]
  by (simp add: pc_step_unfold scatter_outside L_m_diag_def)

lemmas pc_defs = pc_init_def pc_step_def diag_t_def norm1_def gather_def sum_rows_def

lemma example_init:
  "pc_init 2 2 [[Fin 1, Fin 0], [Fin 0, Fin 4]] =
     \<lparr>matrix = [[Fin 1, Fin 0], [Fin 0, Fin 4]], matrix_diag = [Fin 1, Fin 4],
      permutation = [0, 1], L = [[Fin 0, Fin 0], [Fin 0, Fin 0]], errors = Fin 5\<rparr>"
  by (simp add: pc_defs tensor_defs upt_2 numeral_2_eq_2)

lemma example_step:
  "pc_step 2 0 (pc_init 2 2 [[Fin 1, Fin 0], [Fin 0, Fin 4]]) =
     \<lparr>matrix = [[Fin 1, Fin 0], [Fin 0, Fin 4]], matrix_diag = [Fin 1, Fin 4],
      permutation = [1, 0], L = [[Fin 0, Fin 2], [Fin 0, Fin 0]], errors = Fin 1\<rparr>"
  unfolding example_init by (simp add: pc_defs tensor_defs Let_def)

lemma example_reach:
  "pc_reach 2 0 2 (map (pc_init 2 2) [[[Fin 1, Fin 0], [Fin 0, Fin 4]]]) (Suc 0)
     (map (pc_step 2 0) (map (pc_init 2 2) [[[Fin 1, Fin 0], [Fin 0, Fin 4]]]))"
  by (rule pc_reach.iter[OF pc_reach.start, of _ _ "Fin 5"]) (simp_all add: example_init max_t_def)

text \<open>
  Claim C9: in pass \<open>m\<close> the deflation writes the working diagonal only at the
  indices stored at the permutation positions \<open>[m+1, n)\<close>: every other index keeps its
  entry, and so does every index stored at a position \<open>\<le> m\<close>, the pivots assigned so far.
\<close>

theorem deflation_frame:
  assumes "perm_ok n (permutation st)" and "m < n"
  shows "(\<forall>i. i \<notin> set (drop (Suc m) (permutation (pc_step n m st))) \<longrightarrow>
            matrix_diag (pc_step n m st) ! i = matrix_diag st ! i)
       \<and> (\<forall>j\<le>m. matrix_diag (pc_step n m st) ! (permutation (pc_step n m st) ! j)
                   = matrix_diag st ! (permutation (pc_step n m st) ! j))"
proof -
  have ok: "perm_ok n (permutation (pc_step n m st))"
    using assms by (rule perm_ok_pc_step)
  show ?thesis
  proof (intro conjI allI impI)
    fix i assume "i \<notin> set (drop (Suc m) (permutation (pc_step n m st)))"
    then show "matrix_diag (pc_step n m st) ! i = matrix_diag st ! i"
      by (rule matrix_diag_pc_step_outside)
  next
    fix j assume "j \<le> m"
    with ok assms(2) have "permutation (pc_step n m st) ! j
        \<notin> set (drop (Suc m) (permutation (pc_step n m st)))"
      by (intro distinct_prefix_not_in_suffix) (auto simp: perm_ok_def)
    then show "matrix_diag (pc_step n m st) ! (permutation (pc_step n m st) ! j)
                   = matrix_diag st ! (permutation (pc_step n m st) ! j)"
      by (rule matrix_diag_pc_step_outside)
  qed
qed

theorem deflation_frame_witness:
  "perm_ok 2 (permutation (pc_init 2 2 [[Fin 1, Fin 0], [Fin 0, Fin 4]]))
   \<and> matrix_diag (pc_step 2 0 (pc_init 2 2 [[Fin 1, Fin 0], [Fin 0, Fin 4]]))
         ! (permutation (pc_step 2 0 (pc_init 2 2 [[Fin 1, Fin 0], [Fin 0, Fin 4]])) ! 0)
       = matrix_diag (pc_init 2 2 [[Fin 1, Fin 0], [Fin 0, Fin 4]])
         ! (permutation (pc_step 2 0 (pc_init 2 2 [[Fin 1, Fin 0], [Fin 0, Fin 4]])) ! 0)"
proof -
  have ok: "perm_ok 2 (permutation (pc_init 2 2 [[Fin 1, Fin 0], [Fin 0, Fin 4]]))"
    by (rule perm_ok_init)
  have "(0::nat) < 2" by simp
  from deflation_frame[OF ok this] ok show ?thesis by blast
qed

text \<open>
  Claim C5, as amended: a negative selected diagonal value raises nothing. The pass
  stores the square root, which is \<open>NaN\<close>, as \<open>L[m, pivot]\<close>, and the call returns a
  factor for every batch and every \<open>max_iter \<ge> 0\<close>.
\<close>

theorem negative_pivot_is_not_raised:
  "(batch \<noteq> [] \<and> 0 \<le> max_iter \<longrightarrow> (\<exists>Ls. pivoted_cholesky batch max_iter error_tol = Inr Ls))
   \<and> (perm_ok n (permutation st) \<and> m < n \<and> m < length (L st) \<and> length (L st ! m) = n
        \<and> max_diag_values m st = Fin a \<and> a < 0
      \<longrightarrow> L (pc_step n m st) ! m ! (permutation (pc_step n m st) ! m) = NaN)"
proof (intro conjI impI)
  assume "batch \<noteq> [] \<and> 0 \<le> max_iter"
  then have ne: "map (pc_init (nat (min max_iter (int (ncols (hd batch))))) (ncols (hd batch))) batch \<noteq> []"
    and nn: "\<not> min max_iter (int (ncols (hd batch))) < 0"
    by auto
  from pc_loop_returns[OF ne] obtain m' sts' where
    "pc_loop (nat (min max_iter (int (ncols (hd batch))))) error_tol (ncols (hd batch)) 0
       (map (pc_init (nat (min max_iter (int (ncols (hd batch))))) (ncols (hd batch))) batch) = Inr (m', sts')"
    by (metis surj_pair)
  with nn ne show "\<exists>Ls. pivoted_cholesky batch max_iter error_tol = Inr Ls"
    by (cases batch) (auto simp: pivoted_cholesky_def Let_def)
next
  assume a: "perm_ok n (permutation st) \<and> m < n \<and> m < length (L st) \<and> length (L st ! m) = n
        \<and> max_diag_values m st = Fin a \<and> a < 0"
  then have "L (pc_step n m st) ! m ! pi_m m st = fl_sqrt (max_diag_values m st)"
    by (intro L_pivot_entry) auto
  with a show "L (pc_step n m st) ! m ! (permutation (pc_step n m st) ! m) = NaN"
    by (simp add: permutation_pc_step2 pi_m_def)
qed

theorem negative_pivot_is_not_raised_witness:
  "(\<exists>Ls. pivoted_cholesky [[[Fin (- 1)]]] 1 0 = Inr Ls)
   \<and> L (pc_step 1 0 (pc_init 1 1 [[Fin (- 1)]])) ! 0
        ! (permutation (pc_step 1 0 (pc_init 1 1 [[Fin (- 1)]])) ! 0) = NaN"
proof -
  have h: "perm_ok 1 (permutation (pc_init 1 1 [[Fin (- 1)]])) \<and> (0::nat) < 1
      \<and> 0 < length (L (pc_init 1 1 [[Fin (- 1)]])) \<and> length (L (pc_init 1 1 [[Fin (- 1)]]) ! 0) = 1
      \<and> max_diag_values 0 (pc_init 1 1 [[Fin (- 1)]]) = Fin (- 1) \<and> (- 1 :: real) < 0"
    by (simp add: perm_ok_init) (simp add: max_diag_values_def pc_defs tensor_defs)
  from negative_pivot_is_not_raised[of "[[[Fin (- 1)]]]" 1 0 1 "pc_init 1 1 [[Fin (- 1)]]" 0 "- 1"] h
  show ?thesis by simp
qed

text \<open>
  The claim as stated fails: on the matrix \<open>[[-1]]\<close> the selected diagonal value is
  \<open>-1\<close>, and the call returns the factor \<open>[[NaN]]\<close>.
\<close>

theorem negative_pivot_counterexample:
  "max_diag_values 0 (pc_init 1 1 [[Fin (- 1)]]) = Fin (- 1)
   \<and> pivoted_cholesky [[[Fin (- 1)]]] 1 0 = Inr [[[NaN]]]"
  by (simp add: pivoted_cholesky_def max_diag_values_def pc_defs tensor_defs Let_def)

text \<open>
  Claim C6, as amended: a negative \<open>max_iter\<close> raises, from the allocation of \<open>L\<close>
  with a negative number of rows; \<open>max_iter = 0\<close> raises nothing and returns a factor
  with no rows for every batch element.
\<close>

theorem max_iter_not_positive:
  "(max_iter < 0 \<longrightarrow> pivoted_cholesky batch max_iter error_tol = Inl NegativeDimension)
   \<and> (max_iter = 0 \<longrightarrow> pivoted_cholesky batch max_iter error_tol = Inr (map (\<lambda>A. []) batch))"
  by (auto simp: pivoted_cholesky_def Let_def comp_def)

theorem max_iter_not_positive_witness:
  "pivoted_cholesky [[[Fin 4, Fin 2], [Fin 2, Fin 3]]] (- 1) (1 / 1000) = Inl NegativeDimension
   \<and> pivoted_cholesky [[[Fin 4, Fin 2], [Fin 2, Fin 3]]] 0 (1 / 1000) = Inr [[]]"
  using max_iter_not_positive[of "- 1" "[[[Fin 4, Fin 2], [Fin 2, Fin 3]]]" "1 / 1000"]
    max_iter_not_positive[of 0 "[[[Fin 4, Fin 2], [Fin 2, Fin 3]]]" "1 / 1000"]
  by simp

text \<open>
  The claim as stated fails at \<open>max_iter = 0\<close>: the call returns the factor with no
  rows.
\<close>

theorem max_iter_zero_counterexample:
  "pivoted_cholesky [[[Fin 1]]] 0 0 = Inr [[]]"
  by (simp add: pivoted_cholesky_def Let_def ncols_def)

text \<open>
  Claim C7: in every state a run passes through, with \<open>max_iter\<close> clamped to \<open>n\<close>
  as the source does, the permutation of every batch element holds each index
  \<open>0..n-1\<close> exactly once: it starts as the identity ordering, and each further pass
  exchanges the entries at position \<open>m\<close> and at a position \<open>j\<close> in \<open>[m, n)\<close>.
\<close>

theorem permutation_stays_bijection:
  assumes "k = nat (min max_iter (int n))"
    and "pc_reach k error_tol n (map (pc_init k n) batch) m sts"
  shows "(\<forall>A \<in> set batch. permutation (pc_init k n A) = [0..<n])
       \<and> (\<forall>st \<in> set sts. perm_ok n (permutation st))
       \<and> (m < k \<longrightarrow> (\<forall>st \<in> set sts. \<exists>j. m \<le> j \<and> j < n \<and>
              permutation (pc_step n m st) = swap_entries m j (permutation st)))"
proof (intro conjI ballI impI)
  fix A show "permutation (pc_init k n A) = [0..<n]" by (simp add: pc_init_def)
next
  have kn: "k \<le> n" using assms(1) by simp
  have "\<forall>st \<in> set (map (pc_init k n) batch). perm_ok n (permutation st)"
    by (simp add: perm_ok_init)
  with assms(2) kn have all: "\<forall>st \<in> set sts. perm_ok n (permutation st)"
    by (rule pc_reach_perm_ok)
  { fix st assume "st \<in> set sts"
    with all show "perm_ok n (permutation st)" by blast }
  { fix st assume st: "st \<in> set sts" and mk: "m < k"
    with all kn have "m < length (permutation st)" by (auto simp: perm_ok_def)
    from max_diag_indices_range[OF this] all st
    have "m \<le> max_diag_indices m st \<and> max_diag_indices m st < n" by (auto simp: perm_ok_def)
    then show "\<exists>j. m \<le> j \<and> j < n \<and> permutation (pc_step n m st) = swap_entries m j (permutation st)"
      using permutation_pc_step by blast }
qed

theorem permutation_stays_bijection_witness:
  "perm_ok 2 (permutation (pc_step 2 0 (pc_init 2 2 [[Fin 1, Fin 0], [Fin 0, Fin 4]])))
   \<and> (\<exists>j. 1 \<le> j \<and> j < 2 \<and>
        permutation (pc_step 2 1 (pc_step 2 0 (pc_init 2 2 [[Fin 1, Fin 0], [Fin 0, Fin 4]])))
          = swap_entries 1 j (permutation (pc_step 2 0 (pc_init 2 2 [[Fin 1, Fin 0], [Fin 0, Fin 4]]))))"
  using permutation_stays_bijection[OF _ example_reach, of 2] by simp

section \<open>The Woodbury routines leave their arguments unchanged\<close>

lemma unchanged_refl: "unchanged h h"
  by (simp add: unchanged_def)

lemma unchanged_nth: "unchanged h h' \<Longrightarrow> a < length h \<Longrightarrow> h' ! a = h ! a"
  by (metis unchanged_def nth_take)

lemma scaled_inv_shift_obj_unchanged:
  "unchanged h0 h \<Longrightarrow> unchanged h0 (snd (scaled_inv_shift_obj h shift))"
  by (auto simp: scaled_inv_shift_obj_def Let_def new_def unchanged_def split: sum.splits prod.splits)

lemma woodbury_solve_obj_unchanged:
  "unchanged h (snd (woodbury_solve_obj h vector low_rank_mat factor shift))"
  using scaled_inv_shift_obj_unchanged[OF unchanged_refl, of h shift]
  by (auto simp: woodbury_solve_obj_def Let_def new_def unchanged_def split: sum.splits prod.splits)

lemma woodbury_factor_obj_unchanged:
  "unchanged h (snd (woodbury_factor_obj h low_rank_mat shift))"
  using scaled_inv_shift_obj_unchanged[OF unchanged_refl, of h shift]
  by (auto simp: woodbury_factor_obj_def Let_def new_def unchanged_def split: sum.splits prod.splits)

lemma transpose_t_Nil: "transpose_t [] = []"
  by (simp add: transpose_t_def ncols_def)

lemmas at_defs = vec_at_def mat_at_def scalar_at_def transpose_view_def unsqueeze_def

lemma scaled_inv_shift_obj_value:
  assumes "fst shift < length h"
  shows "scaled_inv_shift_obj h shift =
     (case scaled_inv_shift (vec_at h shift) of
        Inl e \<Rightarrow> (Inl e, h @ [Vector (reciprocal (vec_at h shift)),
                               Vector (abs_t (reciprocal (vec_at h shift)))])
      | Inr (v, c) \<Rightarrow> (Inr ((length h + 3, Direct), (length h + 2, Direct)),
            h @ [Vector (reciprocal (vec_at h shift)), Vector (abs_t (reciprocal (vec_at h shift))),
                 Scalar c, Vector v]))"
  using assms
  by (simp add: scaled_inv_shift_obj_def scaled_inv_shift_def Let_def new_def at_defs nth_append
      split: sum.splits)

lemma woodbury_solve_obj_value:
  assumes "fst vector < length h" "fst low_rank_mat < length h" "fst factor < length h"
    "fst shift < length h" "snd vector = Direct" "snd low_rank_mat = Direct" "snd factor = Direct"
  shows "case woodbury_solve (rhs_at h vector) (mat_at h low_rank_mat) (mat_at h factor) (vec_at h shift) of
           Inl e \<Rightarrow> fst (woodbury_solve_obj h vector low_rank_mat factor shift) = Inl e
         | Inr x \<Rightarrow> (\<exists>t. fst (woodbury_solve_obj h vector low_rank_mat factor shift) = Inr t
               \<and> rhs_at (snd (woodbury_solve_obj h vector low_rank_mat factor shift)) t = x)"
proof (cases "scaled_inv_shift (vec_at h shift)")
  case (Inl e)
  then show ?thesis
    using assms
    by (simp add: woodbury_solve_obj_def woodbury_solve_def scaled_inv_shift_obj_value)
next
  case (Inr p)
  obtain v c where p: "p = (v, c)" by (cases p)
  show ?thesis
  proof (cases "ndimension h vector > 1")
    case True
    then show ?thesis
      using assms Inr p
      by (cases "h ! fst low_rank_mat"; cases "h ! fst vector")
         (simp_all add: woodbury_solve_obj_def woodbury_solve_def scaled_inv_shift_obj_value Let_def
          new_def at_defs ndimension_def rhs_at_def nth_append transpose_t_Nil)
  next
    case False
    then show ?thesis
      using assms Inr p
      by (cases "h ! fst low_rank_mat"; cases "h ! fst vector")
         (simp_all add: woodbury_solve_obj_def woodbury_solve_def scaled_inv_shift_obj_value Let_def
          new_def at_defs ndimension_def rhs_at_def nth_append transpose_t_Nil)
  qed
qed

lemma woodbury_factor_obj_value:
  assumes "fst low_rank_mat < length h" "fst shift < length h" "snd low_rank_mat = Direct"
  shows "case woodbury_factor (mat_at h low_rank_mat) (vec_at h shift) of
           Inl e \<Rightarrow> fst (woodbury_factor_obj h low_rank_mat shift) = Inl e
         | Inr R \<Rightarrow> (\<exists>t. fst (woodbury_factor_obj h low_rank_mat shift) = Inr t
               \<and> mat_at (snd (woodbury_factor_obj h low_rank_mat shift)) t = R)"
  using assms
  by (cases "h ! fst low_rank_mat")
     (simp_all add: woodbury_factor_obj_def woodbury_factor_def scaled_inv_shift_obj_value Let_def
        new_def at_defs nth_append transpose_t_Nil split: sum.splits prod.splits)

text \<open>
  Claim C10: after \<open>woodbury_factor\<close> the storages of \<open>V\<close> and \<open>shift\<close>, and after
  \<open>woodbury_solve\<close> the storages of \<open>b\<close> (a vector or a matrix), \<open>V\<close>, \<open>R\<close> and
  \<open>shift\<close>, hold what they held before the call, whether the call returns or raises:
  every operation of the two routines allocates its result.
\<close>

theorem woodbury_inputs_unchanged:
  assumes "fst vector < length h" and "fst low_rank_mat < length h"
    and "fst factor < length h" and "fst shift < length h"
  shows "snd (woodbury_factor_obj h low_rank_mat shift) ! fst low_rank_mat = h ! fst low_rank_mat
       \<and> snd (woodbury_factor_obj h low_rank_mat shift) ! fst shift = h ! fst shift
       \<and> snd (woodbury_solve_obj h vector low_rank_mat factor shift) ! fst vector = h ! fst vector
       \<and> snd (woodbury_solve_obj h vector low_rank_mat factor shift) ! fst low_rank_mat
           = h ! fst low_rank_mat
       \<and> snd (woodbury_solve_obj h vector low_rank_mat factor shift) ! fst factor = h ! fst factor
       \<and> snd (woodbury_solve_obj h vector low_rank_mat factor shift) ! fst shift = h ! fst shift"
  using assms woodbury_factor_obj_unchanged[of h low_rank_mat shift]
    woodbury_solve_obj_unchanged[of h vector low_rank_mat factor shift]
  by (simp add: unchanged_nth)

theorem woodbury_inputs_unchanged_witness:
  "snd (woodbury_solve_obj
          [Vector [Fin 2, Fin 2, Fin 1], Matrix [[Fin 1, Fin 0, Fin 0], [Fin 0, Fin 1, Fin 0]],
           Matrix [[Fin (1 / 2), Fin 0, Fin 0], [Fin 0, Fin (1 / 2), Fin 0]],
           Vector [Fin 1, Fin 1, Fin 1]]
          (0, Direct) (1, Direct) (2, Direct) (3, Direct)) ! 0 = Vector [Fin 2, Fin 2, Fin 1]
   \<and> snd (woodbury_factor_obj
          [Vector [Fin 2, Fin 2, Fin 1], Matrix [[Fin 1, Fin 0, Fin 0], [Fin 0, Fin 1, Fin 0]],
           Matrix [[Fin (1 / 2), Fin 0, Fin 0], [Fin 0, Fin (1 / 2), Fin 0]],
           Vector [Fin 1, Fin 1, Fin 1]]
          (1, Direct) (3, Direct)) ! 3 = Vector [Fin 1, Fin 1, Fin 1]"
  using woodbury_inputs_unchanged[of "(0, Direct)"
      "[Vector [Fin 2, Fin 2, Fin 1], Matrix [[Fin 1, Fin 0, Fin 0], [Fin 0, Fin 1, Fin 0]],
        Matrix [[Fin (1 / 2), Fin 0, Fin 0], [Fin 0, Fin (1 / 2), Fin 0]],
        Vector [Fin 1, Fin 1, Fin 1]]" "(1, Direct)" "(2, Direct)" "(3, Direct)"]
  by simp

section \<open>Positive definite matrices and one step of the factorisation\<close>

lemma pos_def_diag:
  assumes "pos_def k M" "i < k"
  shows "0 < M i i"
proof -
  let ?x = "\<lambda>j. if j = i then 1 else (0::real)"
  have inner: "(\<Sum>j<k. M a j * ?x j) = M a i" for a
  proof -
    have "(\<Sum>j<k. M a j * ?x j) = (\<Sum>j<k. if j = i then M a j else 0)"
      by (intro sum.cong refl) simp
    then show ?thesis using assms(2) by simp
  qed
  have "quad_form k M ?x = (\<Sum>a<k. ?x a * (\<Sum>j<k. M a j * ?x j))"
    unfolding quad_form_def by (simp only: sum_distrib_left mult.assoc)
  also have "\<dots> = (\<Sum>a<k. if a = i then M a i else 0)"
    unfolding inner by (intro sum.cong refl) simp
  also have "\<dots> = M i i" using assms(2) by simp
  finally have "quad_form k M ?x = M i i" .
  moreover have "\<exists>j<k. ?x j \<noteq> 0"
    using assms(2) by (intro exI[of _ i]) simp
  then have "0 < quad_form k M ?x"
    by (rule assms(1)[unfolded pos_def_def, rule_format])
  ultimately show ?thesis by simp
qed


lemma quad_form_Suc:
  "quad_form (Suc k) M x =
     x 0 * M 0 0 * x 0 + (\<Sum>j<k. x 0 * M 0 (Suc j) * x (Suc j))
       + (\<Sum>i<k. x (Suc i) * M (Suc i) 0 * x 0)
       + (\<Sum>i<k. \<Sum>j<k. x (Suc i) * M (Suc i) (Suc j) * x (Suc j))"
proof -
  have "quad_form (Suc k) M x =
      (x 0 * M 0 0 * x 0 + (\<Sum>j<k. x 0 * M 0 (Suc j) * x (Suc j)))
      + (\<Sum>i<k. x (Suc i) * M (Suc i) 0 * x 0 + (\<Sum>j<k. x (Suc i) * M (Suc i) (Suc j) * x (Suc j)))"
    unfolding quad_form_def by (simp only: sum.lessThan_Suc_shift)
  then show ?thesis by (simp only: sum.distrib add.assoc)
qed

lemma quad_form_schur:
  assumes a: "0 < M 0 0"
  shows "quad_form k (schur M) y =
     (\<Sum>i<k. \<Sum>j<k. y i * M (Suc i) (Suc j) * y j) - (\<Sum>i<k. M (Suc i) 0 * y i)\<^sup>2 / M 0 0"
proof -
  define l where "l = sqrt (M 0 0)"
  let ?s = "\<Sum>i<k. M (Suc i) 0 * y i"
  have l2: "l * l = M 0 0" using a by (simp add: l_def)
  have "\<And>i j. y i * ((M (Suc j) 0 / l) * (M (Suc i) 0 / l)) * y j
        = (M (Suc i) 0 * y i) * (M (Suc j) 0 * y j) / (l * l)"
    by simp
  then have "(\<Sum>i<k. \<Sum>j<k. y i * ((M (Suc j) 0 / l) * (M (Suc i) 0 / l)) * y j)
        = (\<Sum>i<k. \<Sum>j<k. (M (Suc i) 0 * y i) * (M (Suc j) 0 * y j) / M 0 0)"
    by (simp only: l2)
  also have "\<dots> = (\<Sum>i<k. \<Sum>j<k. (M (Suc i) 0 * y i) * (M (Suc j) 0 * y j)) / M 0 0"
    by (simp only: sum_divide_distrib)
  also have "(\<Sum>i<k. \<Sum>j<k. (M (Suc i) 0 * y i) * (M (Suc j) 0 * y j)) = ?s * ?s"
    by (simp only: sum_product)
  finally have cc: "(\<Sum>i<k. \<Sum>j<k. y i * ((M (Suc j) 0 / l) * (M (Suc i) 0 / l)) * y j) = ?s\<^sup>2 / M 0 0"
    by (simp only: power2_eq_square)
  have "quad_form k (schur M) y =
      (\<Sum>i<k. \<Sum>j<k. y i * M (Suc i) (Suc j) * y j)
       - (\<Sum>i<k. \<Sum>j<k. y i * ((M (Suc j) 0 / l) * (M (Suc i) 0 / l)) * y j)"
    unfolding quad_form_def schur_def l_def[symmetric]
    by (simp only: sum_subtractf[symmetric] left_diff_distrib right_diff_distrib)
  with cc show ?thesis by simp
qed

lemma schur_pos_def:
  assumes sym: "symmetric (Suc k) M" and pd: "pos_def (Suc k) M"
  shows "pos_def k (schur M)"
  unfolding pos_def_def
proof (intro allI impI)
  fix y :: "nat \<Rightarrow> real"
  assume ne: "\<exists>i<k. y i \<noteq> 0"
  have a: "0 < M 0 0" using pos_def_diag[OF pd, of 0] by simp
  define s where "s = (\<Sum>i<k. M (Suc i) 0 * y i)"
  define x where "x = (\<lambda>i. case i of 0 \<Rightarrow> - s / M 0 0 | Suc i' \<Rightarrow> y i')"
  have x0: "x 0 = - s / M 0 0" and xS: "\<And>i. x (Suc i) = y i" by (simp_all add: x_def)
  from ne obtain i where "i < k" "y i \<noteq> 0" by blast
  then have "\<exists>i<Suc k. x i \<noteq> 0" using xS by (intro exI[of _ "Suc i"]) simp
  then have pos: "0 < quad_form (Suc k) M x"
    by (rule pd[unfolded pos_def_def, rule_format])
  have symr: "\<And>j. j < k \<Longrightarrow> M 0 (Suc j) = M (Suc j) 0"
    using sym unfolding symmetric_def by simp
  have "(\<Sum>j<k. x 0 * M 0 (Suc j) * x (Suc j)) = (\<Sum>j<k. x 0 * (M (Suc j) 0 * y j))"
    by (intro sum.cong refl) (simp add: symr xS)
  then have s1: "(\<Sum>j<k. x 0 * M 0 (Suc j) * x (Suc j)) = x 0 * s"
    by (simp only: sum_distrib_left s_def)
  have "(\<Sum>i<k. x (Suc i) * M (Suc i) 0 * x 0) = (\<Sum>j<k. x 0 * (M (Suc j) 0 * y j))"
    by (intro sum.cong refl) (simp add: xS)
  then have s2: "(\<Sum>i<k. x (Suc i) * M (Suc i) 0 * x 0) = x 0 * s"
    by (simp only: sum_distrib_left s_def)
  define Q where "Q = (\<Sum>i<k. \<Sum>j<k. y i * M (Suc i) (Suc j) * y j)"
  have "quad_form (Suc k) M x = x 0 * M 0 0 * x 0 + x 0 * s + x 0 * s + Q"
    unfolding quad_form_Suc s1 s2 Q_def by (simp only: xS)
  also have "\<dots> = Q - s\<^sup>2 / M 0 0"
    using a unfolding x0 by (simp add: field_simps power2_eq_square)
  also have "\<dots> = quad_form k (schur M) y"
    using quad_form_schur[of M k y, OF a] by (simp only: Q_def s_def)
  finally show "0 < quad_form k (schur M) y" using pos by simp
qed

lemma schur_symmetric:
  assumes "symmetric (Suc k) M"
  shows "symmetric k (schur M)"
  using assms unfolding symmetric_def schur_def by simp

lemma schur_solve_step:
  assumes a: "0 < M 0 0" and sym: "symmetric (Suc k) M"
    and l: "l = sqrt (M 0 0)"
    and y: "y = b0 / l"
    and inner: "\<forall>i<k. (\<Sum>j<k. schur M i j * X j) = B i - y * (M (Suc i) 0 / l)"
    and x0: "x0 = (y - (\<Sum>i<k. (M (Suc i) 0 / l) * X i)) / l"
  shows "(\<Sum>j<Suc k. M 0 j * (case j of 0 \<Rightarrow> x0 | Suc j' \<Rightarrow> X j')) = b0"
    and "\<forall>i<k. (\<Sum>j<Suc k. M (Suc i) j * (case j of 0 \<Rightarrow> x0 | Suc j' \<Rightarrow> X j')) = B i"
proof -
  have lpos: "0 < l" using a l by simp
  have l2: "l * l = M 0 0" using a l by simp
  define cX where "cX = (\<Sum>i<k. (M (Suc i) 0 / l) * X i)"
  have "(\<Sum>j<k. M (Suc j) 0 * X j) = (\<Sum>j<k. l * ((M (Suc j) 0 / l) * X j))"
    using lpos by (intro sum.cong refl) simp
  then have cX: "(\<Sum>j<k. M (Suc j) 0 * X j) = l * cX"
    by (simp only: sum_distrib_left cX_def)
  have symr: "\<And>j. j < k \<Longrightarrow> M 0 (Suc j) = M (Suc j) 0"
    using sym unfolding symmetric_def by simp
  have x0': "x0 = (y - cX) / l" using x0 by (simp only: cX_def)
  have "(\<Sum>j<Suc k. M 0 j * (case j of 0 \<Rightarrow> x0 | Suc j' \<Rightarrow> X j'))
      = M 0 0 * x0 + (\<Sum>j<k. M 0 (Suc j) * X j)"
    by (simp add: sum.lessThan_Suc_shift del: sum.lessThan_Suc)
  also have "(\<Sum>j<k. M 0 (Suc j) * X j) = (\<Sum>j<k. M (Suc j) 0 * X j)"
    by (intro sum.cong refl) (simp add: symr)
  also have "M 0 0 * x0 + (\<Sum>j<k. M (Suc j) 0 * X j) = l * l * x0 + l * cX"
    by (simp only: l2 cX)
  also have "\<dots> = b0" using lpos unfolding x0' y by (simp add: field_simps)
  finally show "(\<Sum>j<Suc k. M 0 j * (case j of 0 \<Rightarrow> x0 | Suc j' \<Rightarrow> X j')) = b0" .
  show "\<forall>i<k. (\<Sum>j<Suc k. M (Suc i) j * (case j of 0 \<Rightarrow> x0 | Suc j' \<Rightarrow> X j')) = B i"
  proof (intro allI impI)
    fix i assume i: "i < k"
    have sch: "(\<Sum>j<k. M (Suc i) (Suc j) * X j)
        = (\<Sum>j<k. schur M i j * X j) + (M (Suc i) 0 / l) * cX"
    proof -
      have "(\<Sum>j<k. schur M i j * X j) + (M (Suc i) 0 / l) * cX
          = (\<Sum>j<k. schur M i j * X j + (M (Suc i) 0 / l) * ((M (Suc j) 0 / l) * X j))"
        by (simp only: sum.distrib sum_distrib_left cX_def)
      also have "\<dots> = (\<Sum>j<k. M (Suc i) (Suc j) * X j)"
        unfolding schur_def l[symmetric] by (intro sum.cong refl) (simp add: algebra_simps)
      finally show ?thesis by simp
    qed
    have "(\<Sum>j<Suc k. M (Suc i) j * (case j of 0 \<Rightarrow> x0 | Suc j' \<Rightarrow> X j'))
        = M (Suc i) 0 * x0 + (\<Sum>j<k. M (Suc i) (Suc j) * X j)"
      by (simp add: sum.lessThan_Suc_shift del: sum.lessThan_Suc)
    also have "\<dots> = M (Suc i) 0 * x0 + (B i - y * (M (Suc i) 0 / l)) + (M (Suc i) 0 / l) * cX"
      using inner i sch by simp
    also have "\<dots> = B i" using lpos unfolding x0' by (simp add: field_simps)
    finally show "(\<Sum>j<Suc k. M (Suc i) j * (case j of 0 \<Rightarrow> x0 | Suc j' \<Rightarrow> X j')) = B i" .
  qed
qed

section \<open>The factorisation and the solve on finite entries\<close>

lemma rmat_nth: "rmat k n A \<Longrightarrow> i < k \<Longrightarrow> length (A ! i) = n"
  by (simp add: rmat_def)

lemma rmat_Cons: "rmat (Suc k) n (r # rs) \<longleftrightarrow> length r = n \<and> rmat k n rs"
  by (auto simp: rmat_def)

lemma sub_t_Fin: "sub_t (map Fin u) (map Fin v) = map Fin (map2 (-) u v)"
  by (induction u v rule: list_induct2') (simp_all add: sub_t_def fl_sub_def)

lemma mul_t_Fin: "mul_t (map Fin u) (map Fin v) = map Fin (map2 (*) u v)"
  by (induction u v rule: list_induct2') (simp_all add: mul_t_def)

lemma mul_scalar_Fin: "mul_scalar (map Fin u) (Fin c) = map Fin (map (\<lambda>x. x * c) u)"
  by (simp add: mul_scalar_def)

lemma div_t_Fin: "c \<noteq> 0 \<Longrightarrow> div_t (map Fin u) (Fin c) = map Fin (map (\<lambda>x. x / c) u)"
  by (simp add: div_t_def)

lemma sum_t_Fin: "sum_t (map Fin u) = Fin (sum_list u)"
  by (induction u) auto

lemma sum_list_map2_nth:
  "length u = n \<Longrightarrow> length v = n \<Longrightarrow> sum_list (map2 (*) u v) = (\<Sum>t<n. u ! t * v ! t)"
proof (induction u arbitrary: v n)
  case Nil
  then show ?case by simp
next
  case (Cons a u)
  then obtain b v' n' where v: "v = b # v'" and n: "n = Suc n'" by (cases v; cases n) auto
  with Cons.prems have "length u = n'" "length v' = n'" by auto
  from Cons.IH[OF this] show ?case
    unfolding v n by (simp add: sum.lessThan_Suc_shift del: sum.lessThan_Suc)
qed

lemma dot_Fin:
  "length u = n \<Longrightarrow> length v = n \<Longrightarrow> dot (map Fin u) (map Fin v) = Fin (\<Sum>t<n. u ! t * v ! t)"
  by (simp only: dot_def mul_t_Fin sum_t_Fin sum_list_map2_nth)

lemma weighted_rows_Fin:
  "length X = length c \<Longrightarrow> \<forall>r\<in>set X. length r = n \<Longrightarrow> length y = n \<Longrightarrow>
     weighted_rows (map Fin c) (map (map Fin) X) (map Fin y)
       = map Fin (map (\<lambda>t. y ! t - (\<Sum>i<length c. c ! i * X ! i ! t)) [0..<n])"
proof (induction c arbitrary: X y)
  case Nil
  then have "map (\<lambda>t. y ! t) [0..<n] = y" by (auto simp: map_nth)
  then show ?case by simp
next
  case (Cons a c)
  then obtain x X' where X: "X = x # X'" by (cases X) auto
  with Cons.prems have len: "length X' = length c" "\<forall>r\<in>set X'. length r = n" "length x = n" by auto
  have acc: "length (map2 (-) y (map (\<lambda>v. v * a) x)) = n" using len Cons.prems by simp
  have "weighted_rows (map Fin (a # c)) (map (map Fin) X) (map Fin y)
      = weighted_rows (map Fin c) (map (map Fin) X') (map Fin (map2 (-) y (map (\<lambda>v. v * a) x)))"
    unfolding X by (simp only: list.map weighted_rows.simps list.case mul_scalar_Fin sub_t_Fin)
  also have "\<dots> = map Fin (map (\<lambda>t. map2 (-) y (map (\<lambda>v. v * a) x) ! t
                    - (\<Sum>i<length c. c ! i * X' ! i ! t)) [0..<n])"
    by (rule Cons.IH[OF len(1,2) acc])
  also have "\<dots> = map Fin (map (\<lambda>t. y ! t - (\<Sum>i<length (a # c). (a # c) ! i * X ! i ! t)) [0..<n])"
    unfolding X using len Cons.prems
    by (simp add: sum.lessThan_Suc_shift algebra_simps del: sum.lessThan_Suc)
  finally show ?case .
qed

lemma map_tl_map2_Cons: "length c = length Cs \<Longrightarrow> map tl (map2 (#) c Cs) = Cs"
  by (induction c Cs rule: list_induct2) simp_all

lemma map_hd_map2_Cons: "length c = length Cs \<Longrightarrow> map hd (map2 (#) c Cs) = c"
  by (induction c Cs rule: list_induct2) simp_all

lemma map2_hd_map2_Cons:
  "length c = length Cs \<Longrightarrow> map2 (\<lambda>row bi. F (hd row) bi) (map2 (#) c Cs) B = map2 F c B"
proof (induction c Cs arbitrary: B rule: list_induct2)
  case Nil
  then show ?case by simp
next
  case (Cons x xs y ys)
  then show ?case by (cases B) simp_all
qed

lemma potrs_Cons:
  assumes "length c = length Cs"
  shows "potrs (b # B) ((l # z) # map2 (#) c Cs) =
     div_t (weighted_rows c (potrs (map2 (\<lambda>ci bi. sub_t bi (mul_scalar (div_t b l) ci)) c B) Cs)
              (div_t b l)) l
       # potrs (map2 (\<lambda>ci bi. sub_t bi (mul_scalar (div_t b l) ci)) c B) Cs"
proof -
  have fw: "forward_subst ((l # z) # map2 (#) c Cs) (b # B) =
      div_t b l # forward_subst Cs (map2 (\<lambda>ci bi. sub_t bi (mul_scalar (div_t b l) ci)) c B)"
    using map_tl_map2_Cons[OF assms]
      map2_hd_map2_Cons[OF assms, of "\<lambda>ci bi. sub_t bi (mul_scalar (div_t b l) ci)" B]
    by (simp add: Let_def)
  show ?thesis
    unfolding potrs_def fw
    using map_tl_map2_Cons[OF assms] map_hd_map2_Cons[OF assms]
    by (simp add: Let_def)
qed

lemma first_col_Fin:
  assumes "l \<noteq> 0" "\<forall>r\<in>set rs. r \<noteq> []"
  shows "map (\<lambda>row. fl_div (hd row) (Fin l)) (map (map Fin) rs) = map Fin (first_col l rs)"
  using assms by (induction rs) (simp_all add: first_col_def hd_map)

lemma schur_block_Fin:
  "schur_block (map (map Fin) rs) (map Fin c) = map (map Fin) (rschur rs c)"
proof -
  have "map2 (\<lambda>row ci. sub_t (tl row) (mul_scalar (map Fin c) ci)) (map (map Fin) rs) (map Fin d)
      = map (map Fin) (map2 (\<lambda>row ci. map2 (-) (tl row) (map (\<lambda>x. x * ci) c)) rs d)" for d
  proof (induction rs d rule: list_induct2')
    case (4 r rs x d)
    have "sub_t (tl (map Fin r)) (mul_scalar (map Fin c) (Fin x))
        = map Fin (map2 (-) (tl r) (map (\<lambda>y. y * x) c))"
      by (simp only: mul_scalar_Fin sub_t_Fin map_tl[symmetric])
    with 4 show ?case by simp
  qed simp_all
  then show ?thesis by (simp only: schur_block_def rschur_def)
qed

lemma first_col_nth:
  assumes "rmat k (Suc k) rs" "i < k"
  shows "first_col l rs ! i = rs ! i ! 0 / l"
proof -
  have "length (rs ! i) = Suc k" using assms by (simp add: rmat_def)
  then have "rs ! i \<noteq> []" by auto
  then show ?thesis using assms by (simp add: first_col_def rmat_def hd_conv_nth)
qed

lemma length_first_col: "length (first_col l rs) = length rs"
  by (simp add: first_col_def)

lemma rmat_rschur:
  assumes "rmat k (Suc k) rs" "length c = k"
  shows "rmat k k (rschur rs c)"
  using assms by (auto simp: rmat_def rschur_def set_zip)

lemma rschur_nth:
  assumes "rmat k (Suc k) rs" "length c = k" "i < k" "j < k"
  shows "rschur rs c ! i ! j = rs ! i ! (Suc j) - c ! j * c ! i"
  using assms by (simp add: rschur_def rmat_def nth_tl)

lemma pos_def_cong:
  assumes "\<And>i j. i < k \<Longrightarrow> j < k \<Longrightarrow> M i j = N i j"
  shows "pos_def k M = pos_def k N"
proof -
  have "quad_form k M x = quad_form k N x" for x
    unfolding quad_form_def by (intro sum.cong refl) (simp add: assms)
  then show ?thesis by (simp add: pos_def_def)
qed

lemma symmetric_cong:
  assumes "\<And>i j. i < k \<Longrightarrow> j < k \<Longrightarrow> M i j = N i j"
  shows "symmetric k M = symmetric k N"
  using assms by (simp add: symmetric_def)

lemma rhs_update_Fin:
  "map2 (\<lambda>ci bi. sub_t bi (mul_scalar (map Fin y) ci)) (map Fin c) (map (map Fin) Bs)
     = map (map Fin) (map2 (\<lambda>ci bi. map2 (-) bi (map (\<lambda>x. x * ci) y)) c Bs)"
proof (induction c Bs rule: list_induct2')
  case (4 x c b Bs)
  have "sub_t (map Fin b) (mul_scalar (map Fin y) (Fin x)) = map Fin (map2 (-) b (map (\<lambda>v. v * x) y))"
    by (simp only: mul_scalar_Fin sub_t_Fin)
  with 4 show ?case by simp
qed simp_all

lemma chol_solve:
  assumes "rmat k k M" "rmat k n B" "symmetric k (ent M)" "pos_def k (ent M)"
  shows "\<exists>C R. cholesky (map (map Fin) M) = Inr C \<and> length C = k
           \<and> potrs (map (map Fin) B) C = map (map Fin) R \<and> rmat k n R
           \<and> (\<forall>i<k. \<forall>t<n. (\<Sum>j<k. ent M i j * ent R j t) = ent B i t)"
  using assms
proof (induction k arbitrary: M B)
  case 0
  then have "M = []" "B = []" by (simp_all add: rmat_def)
  then show ?case by (simp add: potrs_def rmat_def)
next
  case (Suc k)
  from Suc.prems(1) obtain r rs where M: "M = r # rs" by (cases M) (auto simp: rmat_def)
  with Suc.prems(1) have lenr: "length r = Suc k" and rs: "rmat k (Suc k) rs"
    by (simp_all add: rmat_Cons)
  from lenr obtain a rt where r: "r = a # rt" by (cases r) auto
  from Suc.prems(2) obtain b Bs where B: "B = b # Bs" by (cases B) (auto simp: rmat_def)
  with Suc.prems(2) have lenb: "length b = n" and Bs: "rmat k n Bs"
    by (simp_all add: rmat_Cons)
  have M00: "ent M 0 0 = a" by (simp add: ent_def M r)
  have MS0: "ent M (Suc i) 0 = rs ! i ! 0" for i by (simp add: ent_def M)
  have MSS: "ent M (Suc i) (Suc j) = rs ! i ! Suc j" for i j by (simp add: ent_def M)
  have apos: "0 < a" using pos_def_diag[OF Suc.prems(4), of 0] M00 by simp
  define l where "l = sqrt a"
  have lpos: "0 < l" using apos by (simp add: l_def)
  have l_eq: "l = sqrt (ent M 0 0)" by (simp add: l_def M00)
  define c where "c = first_col l rs"
  have lenc: "length c = k" using rs by (simp add: c_def length_first_col rmat_def)
  have c_nth: "c ! i = ent M (Suc i) 0 / l" if "i < k" for i
    using first_col_nth[OF rs that, of l] by (simp add: c_def MS0)
  define S where "S = rschur rs c"
  have S: "rmat k k S" unfolding S_def using rs lenc by (rule rmat_rschur)
  have S_ent: "ent S i j = schur (ent M) i j" if "i < k" "j < k" for i j
  proof -
    have "ent S i j = rs ! i ! (Suc j) - c ! j * c ! i"
      using rschur_nth[OF rs lenc that] by (simp add: ent_def S_def)
    then show ?thesis
      using that by (simp add: schur_def c_nth MSS l_eq[symmetric])
  qed
  have symS: "symmetric k (ent S)"
    using schur_symmetric[OF Suc.prems(3)] symmetric_cong[of k "ent S" "schur (ent M)"] S_ent
    by simp
  have pdS: "pos_def k (ent S)"
    using schur_pos_def[OF Suc.prems(3,4)] pos_def_cong[of k "ent S" "schur (ent M)"] S_ent
    by simp
  define y where "y = map (\<lambda>x. x / l) b"
  have leny: "length y = n" by (simp add: y_def lenb)
  define B2 where "B2 = map2 (\<lambda>ci bi. map2 (-) bi (map (\<lambda>x. x * ci) y)) c Bs"
  have B2: "rmat k n B2"
    using Bs lenc leny by (auto simp: B2_def rmat_def set_zip)
  have B2_ent: "ent B2 i t = ent Bs i t - y ! t * c ! i" if "i < k" "t < n" for i t
    using that Bs lenc leny by (simp add: B2_def ent_def rmat_def)
  from Suc.IH[OF S B2 symS pdS] obtain Cs X where
    chS: "cholesky (map (map Fin) S) = Inr Cs" and lenCs: "length Cs = k"
    and pot: "potrs (map (map Fin) B2) Cs = map (map Fin) X" and X: "rmat k n X"
    and eqS: "\<forall>i<k. \<forall>t<n. (\<Sum>j<k. ent S i j * ent X j t) = ent B2 i t"
    by blast
  have rs_ne: "\<forall>r\<in>set rs. r \<noteq> []" using rs by (auto simp: rmat_def)
  have col: "map (\<lambda>row. fl_div (hd row) (Fin l)) (map (map Fin) rs) = map Fin c"
    unfolding c_def using lpos rs_ne by (intro first_col_Fin) auto
  have lenrs: "length rs = k" using rs by (simp add: rmat_def)
  have chol: "cholesky (map (map Fin) M)
      = Inr ((Fin l # replicate k (Fin 0)) # map2 (#) (map Fin c) Cs)"
    unfolding M r using apos
    by (simp add: l_def[symmetric] col schur_block_Fin S_def[symmetric] chS lenrs Let_def
          del: map_map)
  define w where "w = map (\<lambda>t. y ! t - (\<Sum>i<k. c ! i * X ! i ! t)) [0..<n]"
  define x0 where "x0 = map (\<lambda>v. v / l) w"
  have lenX: "length X = length c" "\<forall>r\<in>set X. length r = n"
    using X lenc by (simp_all add: rmat_def)
  have yF: "div_t (map Fin b) (Fin l) = map Fin y"
    using lpos by (simp add: div_t_Fin y_def)
  have wF: "weighted_rows (map Fin c) (map (map Fin) X) (map Fin y) = map Fin w"
    using weighted_rows_Fin[OF lenX leny] by (simp add: w_def lenc)
  have x0F: "div_t (map Fin w) (Fin l) = map Fin x0"
    using lpos by (simp add: div_t_Fin x0_def)
  have "length (map Fin c) = length Cs" by (simp add: lenc lenCs)
  from potrs_Cons[OF this, of "map Fin b" "map (map Fin) Bs" "Fin l" "replicate k (Fin 0)"]
  have potM: "potrs (map (map Fin) B) ((Fin l # replicate k (Fin 0)) # map2 (#) (map Fin c) Cs)
      = map (map Fin) (x0 # X)"
    unfolding B by (simp add: yF rhs_update_Fin B2_def[symmetric] pot wF x0F del: map_map)
  have R: "rmat (Suc k) n (x0 # X)"
    using X by (simp add: rmat_Cons x0_def w_def)
  have eqs: "(\<Sum>j<Suc k. ent M i j * ent (x0 # X) j t) = ent B i t" if i: "i < Suc k" and t: "t < n" for i t
  proof -
    have x0t: "ent (x0 # X) 0 t = (y ! t - (\<Sum>i<k. (ent M (Suc i) 0 / l) * ent X i t)) / l"
      using t by (simp add: ent_def x0_def w_def c_nth)
    have yt: "y ! t = b ! t / l" using t lenb by (simp add: y_def)
    have inner: "\<forall>i<k. (\<Sum>j<k. schur (ent M) i j * ent X j t)
        = ent Bs i t - y ! t * (ent M (Suc i) 0 / l)"
    proof (intro allI impI)
      fix i assume i: "i < k"
      have "(\<Sum>j<k. schur (ent M) i j * ent X j t) = (\<Sum>j<k. ent S i j * ent X j t)"
        by (intro sum.cong refl) (simp add: S_ent i)
      also have "\<dots> = ent B2 i t" using eqS i t by simp
      finally show "(\<Sum>j<k. schur (ent M) i j * ent X j t)
        = ent Bs i t - y ! t * (ent M (Suc i) 0 / l)"
        by (simp add: B2_ent i t c_nth)
    qed
    have cs: "(case j of 0 \<Rightarrow> ent (x0 # X) 0 t | Suc j' \<Rightarrow> ent X j' t) = ent (x0 # X) j t" for j
      by (cases j) (simp_all add: ent_def)
    have a': "0 < ent M 0 0" using apos M00 by simp
    note step = schur_solve_step[OF a' Suc.prems(3) l_eq yt inner x0t, unfolded cs]
    have B0: "ent B 0 t = b ! t" and BS: "\<And>i'. ent B (Suc i') t = ent Bs i' t"
      by (simp_all add: ent_def B)
    show ?thesis
    proof (cases i)
      case 0
      with step(1) show ?thesis by (simp only: B0)
    next
      case (Suc i')
      with i have "i' < k" by simp
      with step(2) have "(\<Sum>j<Suc k. ent M (Suc i') j * ent (x0 # X) j t) = ent Bs i' t"
        by blast
      then show ?thesis by (simp only: Suc BS)
    qed
  qed
  show ?case
    using chol potM R eqs by (intro exI[of _ "(Fin l # replicate k (Fin 0)) # map2 (#) (map Fin c) Cs"] exI[of _ "x0 # X"]) (simp add: lenc lenCs)
qed

section \<open>The Woodbury factor and solve on finite entries\<close>

lemma reciprocal_Fin:
  "\<forall>x\<in>set s. x \<noteq> 0 \<Longrightarrow> reciprocal (map Fin s) = map Fin (map (\<lambda>x. 1 / x) s)"
  by (induction s) (simp_all add: reciprocal_def)

lemma abs_t_Fin: "abs_t (map Fin u) = map Fin (map abs u)"
  by (simp add: abs_t_def)

lemma max_step_Fin: "max_step (Fin a) (Fin v) = Fin (max a v)"
  by (auto simp: max_step_def max_def)

lemma foldl_max_step_Fin: "foldl max_step (Fin a) (map Fin xs) = Fin (foldl max a xs)"
  by (induction xs arbitrary: a) (simp_all add: max_step_Fin)

lemma foldl_max_Max: "foldl max a xs = Max (set (a # xs))"
proof (induction xs arbitrary: a)
  case Nil
  then show ?case by simp
next
  case (Cons x xs)
  have "Max (set (max a x # xs)) = Max (set (a # x # xs))"
    by (cases "xs = []") (simp_all add: max.assoc Max_insert)
  with Cons show ?case by simp
qed

lemma max_t_Fin: "u \<noteq> [] \<Longrightarrow> max_t (map Fin u) = Inr (Fin (Max (set u)))"
  by (cases u) (simp_all add: max_t_def foldl_max_step_Fin foldl_max_Max)

lemma spec_scale_pos:
  assumes "shift \<noteq> []" "\<forall>x\<in>set shift. x \<noteq> 0"
  shows "0 < spec_scale shift"
proof -
  from assms(1) obtain x where x: "x \<in> set shift" by (cases shift) auto
  with assms(2) have "0 < \<bar>1 / x\<bar>" by simp
  also have "\<bar>1 / x\<bar> \<le> spec_scale shift"
    unfolding spec_scale_def using x by (intro Max_ge) auto
  finally show ?thesis .
qed

lemma scaled_inv_shift_Fin:
  assumes "shift \<noteq> []" "\<forall>x\<in>set shift. x \<noteq> 0"
  shows "scaled_inv_shift (map Fin shift)
     = Inr (map Fin (map (\<lambda>x. 1 / x / spec_scale shift) shift), Fin (spec_scale shift))"
proof -
  have "max_t (abs_t (reciprocal (map Fin shift)))
      = Inr (Fin (Max (set (map abs (map (\<lambda>x. 1 / x) shift)))))"
    using assms by (simp only: reciprocal_Fin abs_t_Fin) (rule max_t_Fin, simp)
  moreover have "Max (set (map abs (map (\<lambda>x. 1 / x) shift))) = spec_scale shift"
    by (simp add: spec_scale_def image_image)
  moreover have "spec_scale shift \<noteq> 0" using spec_scale_pos[OF assms] by simp
  ultimately show ?thesis
    using assms
    by (simp add: scaled_inv_shift_def Let_def reciprocal_Fin div_t_Fin del: map_map)
       (simp add: comp_def)
qed

lemma transpose_t_Fin:
  assumes "rmat k n A" "0 < k"
  shows "transpose_t (map (map Fin) A) = map (map Fin) (rtranspose n A)"
proof -
  from assms obtain r rs where A: "A = r # rs" by (cases A) (auto simp: rmat_def)
  with assms have nc: "ncols (map (map Fin) A) = n" by (simp add: ncols_def rmat_def)
  have "map (\<lambda>r. r ! j) (map (map Fin) A) = map Fin (map (\<lambda>r. r ! j) A)" if "j < n" for j
    using that assms(1) by (simp add: rmat_def)
  then show ?thesis
    unfolding transpose_t_def nc rtranspose_def by (simp add: comp_def)
qed

lemma rmat_rtranspose: "length A = k \<Longrightarrow> rmat n k (rtranspose n A)"
  by (simp add: rmat_def rtranspose_def)

lemma rtranspose_nth: "j < n \<Longrightarrow> i < length A \<Longrightarrow> rtranspose n A ! j ! i = A ! i ! j"
  by (simp add: rtranspose_def)

lemma matmul_Fin:
  assumes "rmat k n A" "rmat n m B" "0 < n"
  shows "matmul (map (map Fin) A) (map (map Fin) B) = map (map Fin) (rmatmul k n m A B)"
proof -
  have tB: "transpose_t (map (map Fin) B) = map (map Fin) (rtranspose m B)"
    using assms(2,3) by (rule transpose_t_Fin)
  have lenB: "length B = n" using assms(2) by (simp add: rmat_def)
  have row: "map (dot (map Fin r)) (map (map Fin) (rtranspose m B))
      = map Fin (map (\<lambda>j. \<Sum>t<n. r ! t * B ! t ! j) [0..<m])" if "length r = n" for r
  proof -
    have "dot (map Fin r) (map Fin (rtranspose m B ! j)) = Fin (\<Sum>t<n. r ! t * B ! t ! j)"
      if "j < m" for j
    proof -
      have len: "length (rtranspose m B ! j) = n" using that lenB by (simp add: rtranspose_def)
      have "dot (map Fin r) (map Fin (rtranspose m B ! j))
          = Fin (\<Sum>t<n. r ! t * rtranspose m B ! j ! t)"
        using \<open>length r = n\<close> len by (rule dot_Fin)
      also have "(\<Sum>t<n. r ! t * rtranspose m B ! j ! t) = (\<Sum>t<n. r ! t * B ! t ! j)"
        by (intro sum.cong refl) (simp add: rtranspose_nth that lenB)
      finally show ?thesis .
    qed
    then show ?thesis
      by (simp add: list_eq_iff_nth_eq rtranspose_def)
  qed
  have "map (\<lambda>r. map (dot r) (map (map Fin) (rtranspose m B))) (map (map Fin) A)
      = map (map Fin) (map (\<lambda>r. map (\<lambda>j. \<Sum>t<n. r ! t * B ! t ! j) [0..<m]) A)"
    using assms(1) row by (simp add: rmat_def)
  also have "map (\<lambda>r. map (\<lambda>j. \<Sum>t<n. r ! t * B ! t ! j) [0..<m]) A = rmatmul k n m A B"
    using assms(1) by (simp add: rmatmul_def rmat_def list_eq_iff_nth_eq)
  finally show ?thesis by (simp only: matmul_def tB)
qed

lemma matvec_Fin:
  assumes "rmat k n A" "length v = n"
  shows "matvec (map (map Fin) A) (map Fin v) = map Fin (map (\<lambda>i. \<Sum>t<n. A ! i ! t * v ! t) [0..<k])"
proof -
  have "dot (map Fin r) (map Fin v) = Fin (\<Sum>t<n. r ! t * v ! t)" if "length r = n" for r
    using that assms(2) by (rule dot_Fin)
  then have "map (\<lambda>r. dot r (map Fin v)) (map (map Fin) A) = map Fin (map (\<lambda>r. \<Sum>t<n. r ! t * v ! t) A)"
    using assms(1) by (simp add: rmat_def)
  also have "map (\<lambda>r. \<Sum>t<n. r ! t * v ! t) A = map (\<lambda>i. \<Sum>t<n. A ! i ! t * v ! t) [0..<k]"
    using assms(1) by (simp add: rmat_def list_eq_iff_nth_eq)
  finally show ?thesis by (simp only: matvec_def)
qed

lemma scale_rows_Fin:
  "map2 (\<lambda>s row. mul_scalar row s) (map Fin d) (map (map Fin) T)
     = map (map Fin) (map2 (\<lambda>s row. map (\<lambda>x. x * s) row) d T)"
proof (induction d T rule: list_induct2')
  case (4 x d r T)
  have "mul_scalar (map Fin r) (Fin x) = map Fin (map (\<lambda>v. v * x) r)"
    by (rule mul_scalar_Fin)
  with 4 show ?case by simp
qed simp_all

lemma add_mat_Fin:
  "add_mat (map (map Fin) A) (map (map Fin) B) = map (map Fin) (map2 (map2 (+)) A B)"
proof -
  have row: "map2 fl_add (map Fin u) (map Fin v) = map Fin (map2 (+) u v)" for u v
    by (induction u v rule: list_induct2') simp_all
  show ?thesis
    unfolding add_mat_def
    by (induction A B rule: list_induct2') (simp_all add: row del: map_map)
qed

lemma eye_div_Fin:
  assumes "c \<noteq> 0"
  shows "map (\<lambda>row. div_t row (Fin c)) (eye k)
     = map (map Fin) (map (\<lambda>i. map (\<lambda>j. (if i = j then 1 else 0) / c) [0..<k]) [0..<k])"
  using assms by (simp add: eye_def div_t_def comp_def if_distrib cong: if_cong)

lemma rmat_shifted_real: "rmat (length V) (length V) (shifted_real V shift)"
  by (auto simp: shifted_real_def Let_def rmat_def rmatmul_def set_zip)

lemma ent_shifted_real:
  assumes "rmat k n V" "length shift = n" "i < k" "j < k"
  shows "ent (shifted_real V shift) i j = spec_M V shift i j"
proof -
  have lenV: "length V = k" using assms(1) by (simp add: rmat_def)
  have "(\<Sum>t<n. V ! i ! t *
          map2 (\<lambda>s row. map (\<lambda>x. x * s) row) (map (\<lambda>x. 1 / x / spec_scale shift) shift)
             (rtranspose n V) ! t ! j)
      = (\<Sum>t<n. V ! i ! t * spec_inv_shift shift t * V ! j ! t)"
    using assms lenV
    by (intro sum.cong refl) (simp add: rtranspose_def spec_inv_shift_def)
  then show ?thesis
    using assms lenV
    by (simp add: ent_def shifted_real_def Let_def rmatmul_def spec_M_def)
qed

lemma shifted_mat_Fin:
  assumes "rmat k n V" "length shift = n" "0 < k" "0 < n" "\<forall>x\<in>set shift. x \<noteq> 0"
  shows "add_mat
           (matmul (map (map Fin) V)
              (map2 (\<lambda>s row. mul_scalar row s)
                 (map Fin (map (\<lambda>x. 1 / x / spec_scale shift) shift))
                 (transpose_t (map (map Fin) V))))
           (map (\<lambda>row. div_t row (Fin (spec_scale shift))) (eye k))
         = map (map Fin) (shifted_real V shift)"
proof -
  have lenV: "length V = k" using assms(1) by (simp add: rmat_def)
  have ne: "shift \<noteq> []" using assms(2,4) by auto
  have c: "spec_scale shift \<noteq> 0" using spec_scale_pos[OF ne assms(5)] by simp
  have W: "rmat n k (map2 (\<lambda>s row. map (\<lambda>x. x * s) row)
      (map (\<lambda>x. 1 / x / spec_scale shift) shift) (rtranspose n V))"
    using assms(2) lenV by (auto simp: rmat_def rtranspose_def set_zip)
  show ?thesis
    by (simp only: transpose_t_Fin[OF assms(1,3)] scale_rows_Fin matmul_Fin[OF assms(1) W assms(4)]
        eye_div_Fin[OF c] add_mat_Fin shifted_real_def Let_def lenV assms(2))
qed

lemma symmetric_spec_M: "symmetric k (spec_M V shift)"
  unfolding symmetric_def spec_M_def
  by (auto intro!: sum.cong simp: mult_ac)

lemma woodbury_factor_correct:
  assumes "rmat k n V" and "length shift = n" and "0 < k" and "0 < n"
    and "\<forall>x\<in>set shift. x \<noteq> 0"
    and "pos_def k (spec_M V shift)"
  shows "\<exists>R. woodbury_factor (map (map Fin) V) (map Fin shift) = Inr (map (map Fin) R)
           \<and> rmat k n R
           \<and> (\<forall>i<k. \<forall>t<n. (\<Sum>j<k. spec_M V shift i j * R ! j ! t) = V ! i ! t)"
proof -
  have lenV: "length V = k" using assms(1) by (simp add: rmat_def)
  have ne: "shift \<noteq> []" using assms(2,4) by auto
  let ?M = "shifted_real V shift"
  have M: "rmat k k ?M" using rmat_shifted_real[of V shift] lenV by simp
  have ent: "\<And>i j. i < k \<Longrightarrow> j < k \<Longrightarrow> ent ?M i j = spec_M V shift i j"
    using ent_shifted_real[OF assms(1,2)] by simp
  have sym: "symmetric k (ent ?M)"
    using symmetric_cong[of k "ent ?M" "spec_M V shift"] ent symmetric_spec_M by simp
  have pd: "pos_def k (ent ?M)"
    using pos_def_cong[of k "ent ?M" "spec_M V shift"] ent assms(6) by simp
  from chol_solve[OF M assms(1) sym pd] obtain C R where
    ch: "cholesky (map (map Fin) ?M) = Inr C" and
    pot: "potrs (map (map Fin) V) C = map (map Fin) R" and R: "rmat k n R" and
    eq: "\<forall>i<k. \<forall>t<n. (\<Sum>j<k. ent ?M i j * ent R j t) = ent V i t"
    by blast
  have "woodbury_factor (map (map Fin) V) (map Fin shift) = Inr (map (map Fin) R)"
    unfolding woodbury_factor_def
    by (simp only: scaled_inv_shift_Fin[OF ne assms(5)] Let_def sum.case prod.case length_map lenV
          shifted_mat_Fin[OF assms(1-5)] ch pot)
  moreover have "(\<Sum>j<k. spec_M V shift i j * R ! j ! t) = V ! i ! t" if "i < k" "t < n" for i t
  proof -
    have "(\<Sum>j<k. spec_M V shift i j * R ! j ! t) = (\<Sum>j<k. ent ?M i j * ent R j t)"
      by (intro sum.cong refl) (simp add: ent that ent_def[of R])
    with eq that show ?thesis by (simp add: ent_def[of V])
  qed
  ultimately show ?thesis using R by blast
qed

lemma woodbury_identity:
  fixes V R :: "nat \<Rightarrow> nat \<Rightarrow> real" and s b x :: "nat \<Rightarrow> real" and c :: real
  assumes c: "0 < c" and s: "\<forall>t<n. s t \<noteq> 0"
    and MR: "\<forall>i<k. \<forall>t<n. (\<Sum>j<k. ((\<Sum>t<n. V i t * (1 / s t / c) * V j t) + (if i = j then 1 / c else 0)) * R j t) = V i t"
    and x: "\<forall>i<n. x i = ((1 / s i / c) * b i
                - (1 / s i / c) * (\<Sum>j<n. (\<Sum>a<k. V a i * R a j) * ((1 / s j / c) * b j))) * c"
  shows "\<forall>i<n. s i * x i + (\<Sum>j<n. (\<Sum>a<k. V a i * V a j) * x j) = b i"
proof (intro allI impI)
  fix i assume i: "i < n"
  define u where "u = (\<lambda>j. b j / s j)"
  define w where "w = (\<lambda>a. (\<Sum>j<n. R a j * u j) / c)"
  define N where "N = (\<lambda>a a'. \<Sum>t<n. V a t * V a' t / s t)"
  define T where "T = (\<lambda>a. \<Sum>t<n. V a t * u t)"
  have cne: "c \<noteq> 0" using c by simp
  \<comment> \<open>the solution in terms of \<open>u\<close> and \<open>w\<close>\<close>
  have xi: "x j = u j - (1 / s j) * (\<Sum>a<k. V a j * w a)" if j: "j < n" for j
  proof -
    have "(\<Sum>t<n. (\<Sum>a<k. V a j * R a t) * ((1 / s t / c) * b t))
        = (\<Sum>t<n. \<Sum>a<k. V a j * (R a t * u t / c))"
    proof (intro sum.cong refl)
      fix t
      have "(\<Sum>a<k. V a j * R a t) * ((1 / s t / c) * b t)
          = (\<Sum>a<k. V a j * R a t * ((1 / s t / c) * b t))"
        by (rule sum_distrib_right)
      also have "\<dots> = (\<Sum>a<k. V a j * (R a t * u t / c))"
        by (intro sum.cong refl) (simp add: u_def)
      finally show "(\<Sum>a<k. V a j * R a t) * ((1 / s t / c) * b t)
          = (\<Sum>a<k. V a j * (R a t * u t / c))" .
    qed
    also have "\<dots> = (\<Sum>a<k. \<Sum>t<n. V a j * (R a t * u t / c))"
      by (rule sum.swap)
    also have "\<dots> = (\<Sum>a<k. V a j * w a)"
      by (intro sum.cong refl) (simp add: w_def sum_distrib_left sum_divide_distrib)
    finally have "(\<Sum>t<n. (\<Sum>a<k. V a j * R a t) * ((1 / s t / c) * b t)) = (\<Sum>a<k. V a j * w a)" .
    with x j have "x j = ((1 / s j / c) * b j - (1 / s j / c) * (\<Sum>a<k. V a j * w a)) * c"
      by simp
    also have "\<dots> = u j - (1 / s j) * (\<Sum>a<k. V a j * w a)"
      using cne by (simp add: u_def field_simps)
    finally show ?thesis .
  qed
  \<comment> \<open>the small system, applied to \<open>w\<close>\<close>
  define Mc where "Mc = (\<lambda>a j. (\<Sum>t<n. V a t * (1 / s t / c) * V j t) + (if a = j then 1 / c else 0))"
  have MR': "(\<Sum>j<k. Mc a j * R j t) = V a t" if "a < k" "t < n" for a t
    using MR that by (simp add: Mc_def)
  have cw: "c * w j = (\<Sum>t<n. R j t * u t)" for j
    using cne by (simp add: w_def)
  have McN: "Mc a j * c = N a j + (if a = j then 1 else 0)" for a j
  proof -
    have "(\<Sum>t<n. V a t * (1 / s t / c) * V j t) * c = (\<Sum>t<n. V a t * (1 / s t / c) * V j t * c)"
      by (rule sum_distrib_right)
    also have "\<dots> = N a j"
      unfolding N_def using cne by (intro sum.cong refl) simp
    finally show ?thesis using cne by (simp add: Mc_def distrib_right)
  qed
  have small: "T a = (\<Sum>a'<k. N a a' * w a') + w a" if a: "a < k" for a
  proof -
    have "T a = (\<Sum>t<n. (\<Sum>j<k. Mc a j * R j t) * u t)"
      unfolding T_def using MR' a by (intro sum.cong refl) simp
    also have "\<dots> = (\<Sum>t<n. \<Sum>j<k. Mc a j * (R j t * u t))"
      by (intro sum.cong refl) (simp add: sum_distrib_right mult.assoc)
    also have "\<dots> = (\<Sum>j<k. \<Sum>t<n. Mc a j * (R j t * u t))"
      by (rule sum.swap)
    also have "\<dots> = (\<Sum>j<k. Mc a j * (c * w j))"
      by (simp only: cw sum_distrib_left)
    also have "\<dots> = (\<Sum>j<k. N a j * w j + (if a = j then w j else 0))"
    proof (intro sum.cong refl)
      fix j
      have "Mc a j * (c * w j) = (Mc a j * c) * w j" by simp
      also have "\<dots> = N a j * w j + (if a = j then w j else 0)"
        unfolding McN by (simp add: distrib_right)
      finally show "Mc a j * (c * w j) = N a j * w j + (if a = j then w j else 0)" .
    qed
    also have "\<dots> = (\<Sum>j<k. N a j * w j) + (\<Sum>j<k. if a = j then w j else 0)"
      by (rule sum.distrib)
    also have "(\<Sum>j<k. if a = j then w j else 0) = w a" using a by simp
    finally show ?thesis .
  qed
  \<comment> \<open>\<open>V x = w\<close>\<close>
  have Vx: "(\<Sum>j<n. V a j * x j) = w a" if a: "a < k" for a
  proof -
    have "(\<Sum>j<n. V a j * x j) = (\<Sum>j<n. V a j * u j - (\<Sum>a'<k. V a j * V a' j / s j * w a'))"
      by (intro sum.cong refl) (simp add: xi sum_distrib_left algebra_simps)
    also have "\<dots> = T a - (\<Sum>j<n. \<Sum>a'<k. V a j * V a' j / s j * w a')"
      by (simp only: sum_subtractf T_def)
    also have "(\<Sum>j<n. \<Sum>a'<k. V a j * V a' j / s j * w a') = (\<Sum>a'<k. \<Sum>j<n. V a j * V a' j / s j * w a')"
      by (rule sum.swap)
    also have "\<dots> = (\<Sum>a'<k. N a a' * w a')"
      by (simp only: N_def sum_distrib_right)
    finally show ?thesis using small[OF a] by simp
  qed
  have "(\<Sum>j<n. (\<Sum>a<k. V a i * V a j) * x j) = (\<Sum>j<n. \<Sum>a<k. V a i * (V a j * x j))"
    by (intro sum.cong refl) (simp add: sum_distrib_right mult.assoc)
  also have "\<dots> = (\<Sum>a<k. \<Sum>j<n. V a i * (V a j * x j))"
    by (rule sum.swap)
  also have "\<dots> = (\<Sum>a<k. V a i * w a)"
    by (intro sum.cong refl) (simp add: sum_distrib_left[symmetric] Vx)
  finally have G: "(\<Sum>j<n. (\<Sum>a<k. V a i * V a j) * x j) = (\<Sum>a<k. V a i * w a)" .
  have "s i * x i = b i - (\<Sum>a<k. V a i * w a)"
    using s i by (simp add: xi u_def field_simps)
  with G show "s i * x i + (\<Sum>j<n. (\<Sum>a<k. V a i * V a j) * x j) = b i" by simp
qed

lemma woodbury_solve_Fin:
  assumes V: "rmat k n V" and R: "rmat k n R" and shift: "length shift = n" and b: "length b = n"
    and k: "0 < k" and n: "0 < n" and nz: "\<forall>x\<in>set shift. x \<noteq> 0"
  shows "woodbury_solve (Vec (map Fin b)) (map (map Fin) V) (map (map Fin) R) (map Fin shift)
     = Inr (Vec (map Fin (solve_real V R shift b)))"
proof -
  have lenV: "length V = k" using V by (simp add: rmat_def)
  have ne: "shift \<noteq> []" using shift n by auto
  define c where "c = spec_scale shift"
  define d where "d = map (\<lambda>x. 1 / x / c) shift"
  define sv where "sv = map2 (*) d b"
  define P where "P = rmatmul n k n (rtranspose n V) R"
  define q where "q = map (\<lambda>i. \<Sum>t<n. P ! i ! t * sv ! t) [0..<n]"
  have Vt: "rmat n k (rtranspose n V)" using lenV by (rule rmat_rtranspose)
  have Pm: "rmat n n P" by (simp add: P_def rmatmul_def rmat_def)
  have lensv: "length sv = n" by (simp add: sv_def d_def shift b)
  have s1: "scaled_inv_shift (map Fin shift) = Inr (map Fin d, Fin c)"
    unfolding d_def c_def using ne nz by (rule scaled_inv_shift_Fin)
  have s2: "mul_t (map Fin d) (map Fin b) = map Fin sv"
    by (simp only: mul_t_Fin sv_def)
  have s3: "matmul (transpose_t (map (map Fin) V)) (map (map Fin) R) = map (map Fin) P"
    by (simp only: transpose_t_Fin[OF V k] matmul_Fin[OF Vt R k] P_def)
  have s4: "matvec (map (map Fin) P) (map Fin sv) = map Fin q"
    by (simp only: matvec_Fin[OF Pm lensv] q_def)
  have s5: "mul_t (map Fin d) (map Fin q) = map Fin (map2 (*) d q)"
    by (rule mul_t_Fin)
  have s6: "sub_t (map Fin sv) (map Fin (map2 (*) d q)) = map Fin (map2 (-) sv (map2 (*) d q))"
    by (rule sub_t_Fin)
  have s7: "mul_scalar (map Fin (map2 (-) sv (map2 (*) d q))) (Fin c)
      = map Fin (map (\<lambda>v. v * c) (map2 (-) sv (map2 (*) d q)))"
    by (rule mul_scalar_Fin)
  have "solve_real V R shift b = map (\<lambda>v. v * c) (map2 (-) sv (map2 (*) d q))"
    by (simp only: solve_real_def Let_def lenV shift c_def d_def sv_def P_def q_def)
  then show ?thesis
    unfolding woodbury_solve_def
    by (simp only: s1 sum.case prod.case rhs.case Let_def s2 s3 s4 s5 s6 s7)
qed

lemma sub_mat_Fin:
  "map2 sub_t (map (map Fin) A) (map (map Fin) B) = map (map Fin) (map2 (map2 (-)) A B)"
  by (induction A B rule: list_induct2') (simp_all add: sub_t_Fin)

lemma mul_scalar_rows_Fin:
  "map (\<lambda>row. mul_scalar row (Fin c)) (map (map Fin) A) = map (map Fin) (map (map (\<lambda>v. v * c)) A)"
  by (induction A) (simp_all add: mul_scalar_Fin)

lemma rmat_scale_rows:
  assumes "length d = n" "rmat n t B"
  shows "rmat n t (map2 (\<lambda>s row. map (\<lambda>x. x * s) row) d B)"
  using assms by (auto simp: rmat_def set_zip)

lemma woodbury_solve_mat_Fin:
  assumes V: "rmat k n V" and R: "rmat k n R" and shift: "length shift = n" and B: "rmat n t B"
    and k: "0 < k" and n: "0 < n" and nz: "\<forall>x\<in>set shift. x \<noteq> 0"
  shows "woodbury_solve (Mat (map (map Fin) B)) (map (map Fin) V) (map (map Fin) R) (map Fin shift)
     = Inr (Mat (map (map Fin) (solve_real_mat t V R shift B)))"
proof -
  have lenV: "length V = k" using V by (simp add: rmat_def)
  have ne: "shift \<noteq> []" using shift n by auto
  define c where "c = spec_scale shift"
  define d where "d = map (\<lambda>x. 1 / x / c) shift"
  define SV where "SV = map2 (\<lambda>s row. map (\<lambda>x. x * s) row) d B"
  define P where "P = rmatmul n k n (rtranspose n V) R"
  define Q where "Q = rmatmul n n t P SV"
  define D where "D = map2 (\<lambda>s row. map (\<lambda>x. x * s) row) d Q"
  have Vt: "rmat n k (rtranspose n V)" using lenV by (rule rmat_rtranspose)
  have Pm: "rmat n n P" by (simp add: P_def rmatmul_def rmat_def)
  have lend: "length d = n" by (simp add: d_def shift)
  have SVm: "rmat n t SV" unfolding SV_def using lend B by (rule rmat_scale_rows)
  have s1: "scaled_inv_shift (map Fin shift) = Inr (map Fin d, Fin c)"
    unfolding d_def c_def using ne nz by (rule scaled_inv_shift_Fin)
  have s2: "map2 (\<lambda>s row. mul_scalar row s) (map Fin d) (map (map Fin) B) = map (map Fin) SV"
    by (simp only: scale_rows_Fin SV_def)
  have s3: "matmul (transpose_t (map (map Fin) V)) (map (map Fin) R) = map (map Fin) P"
    by (simp only: transpose_t_Fin[OF V k] matmul_Fin[OF Vt R k] P_def)
  have s4: "matmul (map (map Fin) P) (map (map Fin) SV) = map (map Fin) Q"
    by (simp only: matmul_Fin[OF Pm SVm n] Q_def)
  have s5: "map2 (\<lambda>s row. mul_scalar row s) (map Fin d) (map (map Fin) Q) = map (map Fin) D"
    by (simp only: scale_rows_Fin D_def)
  have s6: "map2 sub_t (map (map Fin) SV) (map (map Fin) D) = map (map Fin) (map2 (map2 (-)) SV D)"
    by (rule sub_mat_Fin)
  have s7: "map (\<lambda>row. mul_scalar row (Fin c)) (map (map Fin) (map2 (map2 (-)) SV D))
      = map (map Fin) (map (map (\<lambda>v. v * c)) (map2 (map2 (-)) SV D))"
    by (rule mul_scalar_rows_Fin)
  have "solve_real_mat t V R shift B = map (map (\<lambda>v. v * c)) (map2 (map2 (-)) SV D)"
    by (simp only: solve_real_mat_def Let_def lenV shift c_def d_def SV_def P_def Q_def D_def)
  then show ?thesis
    unfolding woodbury_solve_def
    by (simp only: s1 sum.case prod.case rhs.case Let_def s2 s3 s4 s5 s6 s7)
qed

lemma solve_real_mat_nth:
  assumes V: "rmat k n V" and R: "rmat k n R" and shift: "length shift = n" and B: "rmat n t B"
  shows "rmat n t (solve_real_mat t V R shift B)"
    and "i < n \<Longrightarrow> j < t \<Longrightarrow> solve_real_mat t V R shift B ! i ! j =
      ((1 / shift ! i / spec_scale shift) * B ! i ! j
        - (1 / shift ! i / spec_scale shift)
            * (\<Sum>l<n. (\<Sum>a<k. V ! a ! i * R ! a ! l) * ((1 / shift ! l / spec_scale shift) * B ! l ! j)))
       * spec_scale shift"
proof -
  have lenV: "length V = k" using V by (simp add: rmat_def)
  define c where "c = spec_scale shift"
  define d where "d = map (\<lambda>x. 1 / x / c) shift"
  define SV where "SV = map2 (\<lambda>s row. map (\<lambda>x. x * s) row) d B"
  define P where "P = rmatmul n k n (rtranspose n V) R"
  define Q where "Q = rmatmul n n t P SV"
  define D where "D = map2 (\<lambda>s row. map (\<lambda>x. x * s) row) d Q"
  have X: "solve_real_mat t V R shift B = map (map (\<lambda>v. v * c)) (map2 (map2 (-)) SV D)"
    by (simp only: solve_real_mat_def Let_def lenV shift c_def d_def SV_def P_def Q_def D_def)
  have lend: "length d = n" by (simp add: d_def shift)
  have lenB: "length B = n" and rowB: "\<And>i. i < n \<Longrightarrow> length (B ! i) = t"
    using B by (auto simp: rmat_def)
  have SVm: "rmat n t SV" unfolding SV_def using lend B by (rule rmat_scale_rows)
  have Qm: "rmat n t Q" by (simp add: Q_def rmatmul_def rmat_def)
  have Dm: "rmat n t D" unfolding D_def using lend Qm by (rule rmat_scale_rows)
  show "rmat n t (solve_real_mat t V R shift B)"
    unfolding X using SVm Dm by (auto simp: rmat_def set_zip)
  assume i: "i < n" and j: "j < t"
  have di: "d ! l = 1 / shift ! l / c" if "l < n" for l
    using that by (simp add: d_def shift)
  have SVe: "SV ! l ! j = B ! l ! j * d ! l" if "l < n" for l
    using that j lend lenB rowB by (simp add: SV_def)
  have Pe: "P ! i ! l = (\<Sum>a<k. V ! a ! i * R ! a ! l)" if "l < n" for l
    using that i lenV by (simp add: P_def rmatmul_def rtranspose_def)
  have Qe: "Q ! i ! j = (\<Sum>l<n. P ! i ! l * SV ! l ! j)"
    using i j by (simp add: Q_def rmatmul_def)
  have lenSV: "length SV = n" and lenD: "length D = n" and lenQ: "length Q = n"
    and rowSV: "length (SV ! i) = t" and rowD: "length (D ! i) = t" and rowQ: "length (Q ! i) = t"
    using SVm Dm Qm i by (auto simp: rmat_def)
  have De: "D ! i ! j = Q ! i ! j * d ! i"
    using i j lend lenQ rowQ by (simp add: D_def)
  have "solve_real_mat t V R shift B ! i ! j = (SV ! i ! j - D ! i ! j) * c"
    unfolding X using i j lenSV lenD rowSV rowD by simp
  also have "\<dots> = (d ! i * B ! i ! j - d ! i * (\<Sum>l<n. P ! i ! l * SV ! l ! j)) * c"
    by (simp add: SVe[OF i] De Qe mult.commute)
  also have "(\<Sum>l<n. P ! i ! l * SV ! l ! j)
      = (\<Sum>l<n. (\<Sum>a<k. V ! a ! i * R ! a ! l) * ((1 / shift ! l / c) * B ! l ! j))"
    by (intro sum.cong refl) (simp add: Pe SVe di mult.commute)
  finally show "solve_real_mat t V R shift B ! i ! j =
      ((1 / shift ! i / spec_scale shift) * B ! i ! j
        - (1 / shift ! i / spec_scale shift)
            * (\<Sum>l<n. (\<Sum>a<k. V ! a ! i * R ! a ! l) * ((1 / shift ! l / spec_scale shift) * B ! l ! j)))
       * spec_scale shift"
    by (simp only: di[OF i] c_def)
qed

lemma solve_real_nth:
  assumes V: "rmat k n V" and R: "rmat k n R" and shift: "length shift = n" and b: "length b = n"
    and i: "i < n"
  shows "length (solve_real V R shift b) = n"
    and "solve_real V R shift b ! i =
      ((1 / shift ! i / spec_scale shift) * b ! i
        - (1 / shift ! i / spec_scale shift)
            * (\<Sum>j<n. (\<Sum>a<k. V ! a ! i * R ! a ! j) * ((1 / shift ! j / spec_scale shift) * b ! j)))
       * spec_scale shift"
proof -
  have lenV: "length V = k" using V by (simp add: rmat_def)
  show "length (solve_real V R shift b) = n"
    by (simp add: solve_real_def Let_def shift b)
  have P: "rmatmul n k n (rtranspose n V) R ! i ! j = (\<Sum>a<k. V ! a ! i * R ! a ! j)" if "j < n" for j
    using that i lenV by (simp add: rmatmul_def rtranspose_def)
  have "(\<Sum>t<n. rmatmul n k n (rtranspose n V) R ! i ! t
              * map2 (*) (map (\<lambda>x. 1 / x / spec_scale shift) shift) b ! t)
      = (\<Sum>j<n. (\<Sum>a<k. V ! a ! i * R ! a ! j) * ((1 / shift ! j / spec_scale shift) * b ! j))"
    by (intro sum.cong refl) (simp add: P shift b)
  then show "solve_real V R shift b ! i =
      ((1 / shift ! i / spec_scale shift) * b ! i
        - (1 / shift ! i / spec_scale shift)
            * (\<Sum>j<n. (\<Sum>a<k. V ! a ! i * R ! a ! j) * ((1 / shift ! j / spec_scale shift) * b ! j)))
       * spec_scale shift"
    using i by (simp add: solve_real_def Let_def lenV shift b)
qed

lemma woodbury_solve_correct:
  assumes V: "rmat k n V" and shift: "length shift = n" and b: "length b = n" and B: "rmat n t B"
    and k: "0 < k" and n: "0 < n" and nz: "\<forall>x\<in>set shift. x \<noteq> 0"
    and pd: "pos_def k (spec_M V shift)"
  shows "\<exists>R x X. woodbury_factor (map (map Fin) V) (map Fin shift) = Inr R
           \<and> woodbury_solve (Vec (map Fin b)) (map (map Fin) V) R (map Fin shift)
               = Inr (Vec (map Fin x))
           \<and> length x = n
           \<and> (\<forall>i<n. shift ! i * x ! i + (\<Sum>j<n. (\<Sum>a<k. V ! a ! i * V ! a ! j) * x ! j) = b ! i)
           \<and> woodbury_solve (Mat (map (map Fin) B)) (map (map Fin) V) R (map Fin shift)
               = Inr (Mat (map (map Fin) X))
           \<and> rmat n t X
           \<and> (\<forall>c<t. \<forall>i<n. shift ! i * X ! i ! c
                   + (\<Sum>j<n. (\<Sum>a<k. V ! a ! i * V ! a ! j) * X ! j ! c) = B ! i ! c)"
proof -
  from woodbury_factor_correct[OF V shift k n nz pd] obtain R where
    fac: "woodbury_factor (map (map Fin) V) (map Fin shift) = Inr (map (map Fin) R)"
    and R: "rmat k n R"
    and MR: "\<forall>i<k. \<forall>t<n. (\<Sum>j<k. spec_M V shift i j * R ! j ! t) = V ! i ! t"
    by blast
  define x where "x = solve_real V R shift b"
  have sol: "woodbury_solve (Vec (map Fin b)) (map (map Fin) V) (map (map Fin) R) (map Fin shift)
      = Inr (Vec (map Fin x))"
    unfolding x_def using V R shift b k n nz by (rule woodbury_solve_Fin)
  define X where "X = solve_real_mat t V R shift B"
  have solM: "woodbury_solve (Mat (map (map Fin) B)) (map (map Fin) V) (map (map Fin) R) (map Fin shift)
      = Inr (Mat (map (map Fin) X))"
    unfolding X_def using V R shift B k n nz by (rule woodbury_solve_mat_Fin)
  have Xm: "rmat n t X"
    unfolding X_def using V R shift B by (rule solve_real_mat_nth(1))
  have ne: "shift \<noteq> []" using shift n by auto
  have c: "0 < spec_scale shift" using ne nz by (rule spec_scale_pos)
  have s: "\<forall>t<n. shift ! t \<noteq> 0" using nz shift by auto
  have MR': "\<forall>i<k. \<forall>t<n. (\<Sum>j<k. ((\<Sum>t<n. V ! i ! t * (1 / shift ! t / spec_scale shift) * V ! j ! t)
        + (if i = j then 1 / spec_scale shift else 0)) * R ! j ! t) = V ! i ! t"
    using MR by (simp add: spec_M_def spec_inv_shift_def shift)
  have xs: "\<forall>i<n. x ! i = ((1 / shift ! i / spec_scale shift) * b ! i
        - (1 / shift ! i / spec_scale shift)
            * (\<Sum>j<n. (\<Sum>a<k. V ! a ! i * R ! a ! j) * ((1 / shift ! j / spec_scale shift) * b ! j)))
       * spec_scale shift"
    unfolding x_def using solve_real_nth(2)[OF V R shift b] by blast
  have vec: "\<forall>i<n. shift ! i * x ! i + (\<Sum>j<n. (\<Sum>a<k. V ! a ! i * V ! a ! j) * x ! j) = b ! i"
    by (rule woodbury_identity[of "spec_scale shift" n "\<lambda>t. shift ! t" k "\<lambda>a t. V ! a ! t"
          "\<lambda>a t. R ! a ! t" "\<lambda>i. x ! i" "\<lambda>t. b ! t", OF c s MR' xs])
  have lenx: "length x = n"
    unfolding x_def using solve_real_nth(1)[OF V R shift b] n by blast
  have col: "\<forall>i<n. shift ! i * X ! i ! j + (\<Sum>l<n. (\<Sum>a<k. V ! a ! i * V ! a ! l) * X ! l ! j) = B ! i ! j"
    if j: "j < t" for j
  proof -
    have Xs: "\<forall>i<n. X ! i ! j = ((1 / shift ! i / spec_scale shift) * B ! i ! j
          - (1 / shift ! i / spec_scale shift)
              * (\<Sum>l<n. (\<Sum>a<k. V ! a ! i * R ! a ! l) * ((1 / shift ! l / spec_scale shift) * B ! l ! j)))
         * spec_scale shift"
      unfolding X_def using solve_real_mat_nth(2)[OF V R shift B _ j] by blast
    show ?thesis
      by (rule woodbury_identity[of "spec_scale shift" n "\<lambda>t. shift ! t" k "\<lambda>a t. V ! a ! t"
            "\<lambda>a t. R ! a ! t" "\<lambda>i. X ! i ! j" "\<lambda>l. B ! l ! j", OF c s MR' Xs])
  qed
  show ?thesis
    using fac sol lenx vec solM Xm col by blast
qed

lemma example_spec_scale: "spec_scale [1, 1, 1] = 1"
  by (simp add: spec_scale_def)

lemma example_spec_M:
  "spec_M [[1, 0, 0], [0, 1, 0]] [1, 1, 1] 0 0 = 2"
  "spec_M [[1, 0, 0], [0, 1, 0]] [1, 1, 1] 0 (Suc 0) = 0"
  "spec_M [[1, 0, 0], [0, 1, 0]] [1, 1, 1] (Suc 0) 0 = 0"
  "spec_M [[1, 0, 0], [0, 1, 0]] [1, 1, 1] (Suc 0) (Suc 0) = 2"
  by (simp_all add: spec_M_def spec_inv_shift_def example_spec_scale numeral_3_eq_3)

lemma example_pos_def: "pos_def 2 (spec_M [[1, 0, 0], [0, 1, 0]] [1, 1, 1])"
  unfolding pos_def_def quad_form_def
proof (intro allI impI)
  fix x :: "nat \<Rightarrow> real"
  assume "\<exists>i<2. x i \<noteq> 0"
  then have "x 0 \<noteq> 0 \<or> x (Suc 0) \<noteq> 0" by (auto simp: numeral_2_eq_2 less_Suc_eq)
  then have "0 < x 0 * x 0 + x (Suc 0) * x (Suc 0)"
    using sum_squares_gt_zero_iff[of "x 0" "x (Suc 0)"] by simp
  then show "0 < (\<Sum>i<2. \<Sum>j<2. x i * spec_M [[1, 0, 0], [0, 1, 0]] [1, 1, 1] i j * x j)"
    by (simp add: numeral_2_eq_2 example_spec_M)
qed

text \<open>
  Claim C2, as amended: in exact arithmetic, for a \<open>k \<times> n\<close> matrix \<open>V\<close> and a shift
  with no zero entry such that the matrix \<open>M\<close> of the specification is positive
  definite, \<open>woodbury_factor\<close> returns a \<open>k \<times> n\<close> matrix \<open>R\<close> with \<open>M R = V\<close>.
\<close>

theorem woodbury_factor_solves_shifted_system:
  assumes "rmat k n V" and "length shift = n" and "0 < k" and "0 < n"
    and "\<forall>x\<in>set shift. x \<noteq> 0"
    and "pos_def k (spec_M V shift)"
  shows "\<exists>R. woodbury_factor (map (map Fin) V) (map Fin shift) = Inr (map (map Fin) R)
           \<and> rmat k n R
           \<and> (\<forall>i<k. \<forall>t<n. (\<Sum>j<k. spec_M V shift i j * R ! j ! t) = V ! i ! t)"
  using assms by (rule woodbury_factor_correct)

theorem woodbury_factor_solves_shifted_system_witness:
  "rmat 2 3 [[1, 0, 0], [0, 1, 0]] \<and> pos_def 2 (spec_M [[1, 0, 0], [0, 1, 0]] [1, 1, 1])
   \<and> (\<exists>R. woodbury_factor (map (map Fin) [[1, 0, 0], [0, 1, 0]]) (map Fin [1, 1, 1])
             = Inr (map (map Fin) R)
          \<and> rmat 2 3 R
          \<and> (\<forall>i<2. \<forall>t<3. (\<Sum>j<2. spec_M [[1, 0, 0], [0, 1, 0]] [1, 1, 1] i j * R ! j ! t)
                = [[1, 0, 0], [0, 1, 0]] ! i ! t))"
proof -
  have V: "rmat 2 3 [[1, 0, 0], [0, 1, 0 :: real]]" by (simp add: rmat_def)
  have s: "length [1, 1, 1 :: real] = 3" by simp
  have nz: "\<forall>x\<in>set [1, 1, 1 :: real]. x \<noteq> 0" by simp
  from woodbury_factor_solves_shifted_system[OF V s _ _ nz example_pos_def] V example_pos_def
  show ?thesis by simp
qed

section \<open>The Woodbury factor in rounded arithmetic\<close>

text \<open>With no rounding, the rounded routines are the routines of exact arithmetic.\<close>

lemma rd_Fin: "rd Fin x = x"
  by (cases x) simp_all

lemma map_rd_Fin: "map (rd Fin) v = v"
  by (induction v) (simp_all add: rd_Fin)

lemma map_map_rd_Fin: "map (map (rd Fin)) A = A"
  by (induction A) (simp_all add: map_rd_Fin)

lemma sum_t_rd_Fin: "sum_t_rd Fin v = sum_t v"
  by (induction v) (simp_all add: rd_Fin)

lemma dot_rd_Fin: "dot_rd Fin u v = dot u v"
  by (simp add: dot_rd_def dot_def map_rd_Fin sum_t_rd_Fin)

lemma matmul_rd_Fin: "matmul_rd Fin A B = matmul A B"
  by (simp add: matmul_rd_def matmul_def dot_rd_Fin)

lemma schur_block_rd_Fin: "schur_block_rd Fin rs c = schur_block rs c"
  by (simp add: schur_block_rd_def schur_block_def map_rd_Fin)

lemma cholesky_rd_Fin: "cholesky_rd Fin A = cholesky A"
  by (induction A rule: cholesky.induct)
     (simp_all add: rd_Fin schur_block_rd_Fin Let_def split: sum.splits)

lemma forward_subst_rd_Fin: "forward_subst_rd Fin C B = forward_subst C B"
  by (induction C B rule: forward_subst.induct) (simp_all add: map_rd_Fin Let_def)

lemma weighted_rows_rd_Fin: "weighted_rows_rd Fin cs X acc = weighted_rows cs X acc"
  by (induction cs arbitrary: X acc) (simp_all add: map_rd_Fin split: list.splits)

lemma back_subst_rd_Fin: "back_subst_rd Fin C Y = back_subst C Y"
  by (induction C Y rule: back_subst.induct) (simp_all add: map_rd_Fin weighted_rows_rd_Fin Let_def)

lemma potrs_rd_Fin: "potrs_rd Fin B C = potrs B C"
  by (simp add: potrs_rd_def potrs_def back_subst_rd_Fin forward_subst_rd_Fin)

lemma scaled_inv_shift_rd_Fin: "scaled_inv_shift_rd Fin shift = scaled_inv_shift shift"
  by (simp add: scaled_inv_shift_rd_def scaled_inv_shift_def map_rd_Fin Let_def split: sum.splits)

lemma woodbury_factor_rd_Fin: "woodbury_factor_rd Fin V shift = woodbury_factor V shift"
  by (simp add: woodbury_factor_rd_def woodbury_factor_def scaled_inv_shift_rd_Fin matmul_rd_Fin
      map_rd_Fin map_map_rd_Fin cholesky_rd_Fin potrs_rd_Fin Let_def split: sum.splits prod.splits)

text \<open>
  The values of \<open>binary64\<close> on the numbers of the input \<open>V = [[1],[1]]\<close>,
  \<open>shift = [2\<^sup>-\<^sup>6\<^sup>0]\<close>: \<open>0\<close>, \<open>1\<close>, \<open>2\<^sup>6\<^sup>0\<close> and \<open>2\<^sup>-\<^sup>6\<^sup>0\<close> are numbers of the format,
  and \<open>1 + 2\<^sup>-\<^sup>6\<^sup>0\<close> is rounded to \<open>1\<close>.
\<close>

lemma binary64_normal:
  fixes x :: real
  assumes lo: "2 powr of_int k \<le> \<bar>x\<bar>" and hi: "\<bar>x\<bar> < 2 powr of_int (k + 1)"
    and k: "- 1022 \<le> k"
    and m: "round_even (x / 2 powr of_int (k - 52)) = m"
    and fin: "\<bar>real_of_int m * 2 powr of_int (k - 52)\<bar> < 2 ^ 1024"
  shows "binary64 x = Fin (of_int m * 2 powr of_int (k - 52))"
proof -
  have pos: "0 < \<bar>x\<bar>" using lo powr_gt_zero[of 2 "of_int k"] by linarith
  then have x0: "x \<noteq> 0" by simp
  have "\<lfloor>log 2 \<bar>x\<bar>\<rfloor> = k"
    using floor_log_eq_powr_iff[of "\<bar>x\<bar>" 2 k] pos lo hi by simp
  then have e: "max (\<lfloor>log 2 \<bar>x\<bar>\<rfloor> - 52) (- 1074) = k - 52" using k by simp
  have nf: "\<not> 2 ^ 1024 \<le> \<bar>real_of_int m * 2 powr of_int (k - 52)\<bar>" using fin by simp
  show ?thesis
    unfolding binary64_def by (simp only: e m Let_def x0 nf if_False)
qed

lemma binary64_0: "binary64 0 = Fin 0"
  by (simp add: binary64_def)

lemma binary64_1: "binary64 1 = Fin 1"
  using binary64_normal[of 0 1 "2 ^ 52"]
  by (simp add: powr_neg_numeral round_even_def)

lemma binary64_pow60: "binary64 (2 ^ 60) = Fin (2 ^ 60)"
  using binary64_normal[of 60 "2 ^ 60" "2 ^ 52"]
  by (simp add: powr_neg_numeral round_even_def)

lemma binary64_pow_neg60: "binary64 (1 / 2 ^ 60) = Fin (1 / 2 ^ 60)"
  using binary64_normal[of "- 60" "1 / 2 ^ 60" "2 ^ 52"]
  by (simp add: powr_neg_numeral round_even_def)

lemma binary64_absorbed: "binary64 (1 + 1 / 2 ^ 60) = Fin 1"
  using binary64_normal[of 0 "1 + 1 / 2 ^ 60" "2 ^ 52"]
  by (simp add: powr_neg_numeral round_even_def)

lemmas binary64_values = binary64_0 binary64_1 binary64_pow60[simplified] binary64_pow_neg60[simplified]
  binary64_absorbed[simplified]

lemma rounding_example_scale: "scaled_inv_shift_rd binary64 [Fin (1 / 2 ^ 60)] = Inr ([Fin 1], Fin (2 ^ 60))"
  by (simp add: scaled_inv_shift_rd_def tensor_defs Let_def binary64_values)

lemma rounding_example_shifted_mat:
  "map (map (rd binary64))
     (add_mat
        (matmul_rd binary64 [[Fin 1], [Fin 1]]
           (map2 (\<lambda>s row. map (rd binary64) (mul_scalar row s)) [Fin 1] (transpose_t [[Fin 1], [Fin 1]])))
        (map (\<lambda>row. map (rd binary64) (div_t row (Fin (2 ^ 60)))) (eye 2)))
   = [[Fin 1, Fin 1], [Fin 1, Fin 1]]"
  by (simp add: matmul_rd_def dot_rd_def tensor_defs Let_def binary64_values upt_2)

lemma rounding_example_cholesky: "cholesky_rd binary64 [[Fin 1, Fin 1], [Fin 1, Fin 1]] = Inl NotPositiveDefinite"
  by (simp add: schur_block_rd_def tensor_defs Let_def binary64_values)

lemma rounding_example_factor:
  "woodbury_factor_rd binary64 [[Fin 1], [Fin 1]] [Fin (1 / 2 ^ 60)] = Inl NotPositiveDefinite"
  by (simp add: woodbury_factor_rd_def scaled_inv_shift_rd_def matmul_rd_def dot_rd_def
      schur_block_rd_def tensor_defs Let_def binary64_values upt_2)

lemma rounding_example_exact:
  "\<exists>R. woodbury_factor [[Fin 1], [Fin 1]] [Fin (1 / 2 ^ 60)] = Inr R"
  by (simp add: woodbury_factor_def scaled_inv_shift_def schur_block_def potrs_def
      tensor_defs Let_def upt_2)

lemma rounding_example_spec_scale: "spec_scale [1 / 2 ^ 60] = 2 ^ 60"
  by (simp add: spec_scale_def)

lemma rounding_example_spec_M:
  "spec_M [[1], [1]] [1 / 2 ^ 60] 0 0 = 1 + 1 / 2 ^ 60"
  "spec_M [[1], [1]] [1 / 2 ^ 60] 0 (Suc 0) = 1"
  "spec_M [[1], [1]] [1 / 2 ^ 60] (Suc 0) 0 = 1"
  "spec_M [[1], [1]] [1 / 2 ^ 60] (Suc 0) (Suc 0) = 1 + 1 / 2 ^ 60"
  by (simp_all add: spec_M_def spec_inv_shift_def rounding_example_spec_scale[simplified])

lemma rounding_example_pos_def: "pos_def 2 (spec_M [[1], [1]] [1 / 2 ^ 60])"
proof -
  define M where "M = spec_M [[1], [1]] [1 / 2 ^ 60]"
  define e :: real where "e = 1 / 2 ^ 60"
  have e: "0 < e" by (simp add: e_def)
  have M: "M 0 0 = 1 + e" "M 0 (Suc 0) = 1" "M (Suc 0) 0 = 1" "M (Suc 0) (Suc 0) = 1 + e"
    unfolding M_def e_def by (rule rounding_example_spec_M)+
  have "0 < (\<Sum>i<2. \<Sum>j<2. x i * M i j * x j)" if "\<exists>i<2. x i \<noteq> 0" for x :: "nat \<Rightarrow> real"
  proof -
    from that have "x 0 \<noteq> 0 \<or> x (Suc 0) \<noteq> 0" by (auto simp: numeral_2_eq_2 less_Suc_eq)
    then have p: "0 < x 0 * x 0 + x (Suc 0) * x (Suc 0)"
      using sum_squares_gt_zero_iff[of "x 0" "x (Suc 0)"] by simp
    have "(\<Sum>i<2. \<Sum>j<2. x i * M i j * x j)
        = (x 0 + x (Suc 0)) * (x 0 + x (Suc 0)) + e * (x 0 * x 0 + x (Suc 0) * x (Suc 0))"
      by (simp add: numeral_2_eq_2 M algebra_simps)
    moreover have "0 \<le> (x 0 + x (Suc 0)) * (x 0 + x (Suc 0))" by simp
    moreover have "0 < e * (x 0 * x 0 + x (Suc 0) * x (Suc 0))" using p e by simp
    ultimately show ?thesis by linarith
  qed
  then show ?thesis unfolding pos_def_def quad_form_def M_def by blast
qed

text \<open>
  The claim as stated, without the restriction to exact arithmetic, fails: for
  \<open>V = [[1],[1]]\<close> and \<open>shift = [2\<^sup>-\<^sup>6\<^sup>0]\<close>, both made of numbers of the
  double-precision format, the shift has no zero entry and
  \<open>M = [[1 + 2\<^sup>-\<^sup>6\<^sup>0, 1], [1, 1 + 2\<^sup>-\<^sup>6\<^sup>0]]\<close> is positive definite, but with every
  result rounded to double precision the sum \<open>1 + 2\<^sup>-\<^sup>6\<^sup>0\<close> is \<open>1\<close>, the
  factorisation meets the pivot \<open>0\<close> and \<open>woodbury_factor\<close> raises instead of
  returning a factor.
\<close>

theorem woodbury_factor_rounding_counterexample:
  "rmat 2 1 [[1], [1]] \<and> 1 / 2 ^ 60 \<noteq> (0::real)
   \<and> pos_def 2 (spec_M [[1], [1]] [1 / 2 ^ 60])
   \<and> woodbury_factor_rd binary64 (map (map Fin) [[1], [1]]) (map Fin [1 / 2 ^ 60])
       = Inl NotPositiveDefinite"
  using rounding_example_pos_def rounding_example_factor by (simp add: rmat_def)

text \<open>
  Claim C1: under the same conditions, \<open>woodbury_solve\<close> with the factor that
  \<open>woodbury_factor\<close> returns gives, for a right-hand side \<open>b\<close> of length \<open>n\<close>, a vector
  \<open>x\<close> with \<open>(diag(shift) + V\<^sup>T V) x = b\<close> in exact arithmetic, and for an
  \<open>n \<times> t\<close> matrix \<open>B\<close> of right-hand sides an \<open>n \<times> t\<close> matrix \<open>X\<close> whose every column
  solves the system for the same column of \<open>B\<close>.
\<close>

theorem woodbury_solve_solves_system:
  assumes "rmat k n V" and "length shift = n" and "length b = n" and "rmat n t B"
    and "0 < k" and "0 < n"
    and "\<forall>x\<in>set shift. x \<noteq> 0"
    and "pos_def k (spec_M V shift)"
  shows "\<exists>R x X. woodbury_factor (map (map Fin) V) (map Fin shift) = Inr R
           \<and> woodbury_solve (Vec (map Fin b)) (map (map Fin) V) R (map Fin shift)
               = Inr (Vec (map Fin x))
           \<and> length x = n
           \<and> (\<forall>i<n. shift ! i * x ! i + (\<Sum>j<n. (\<Sum>a<k. V ! a ! i * V ! a ! j) * x ! j) = b ! i)
           \<and> woodbury_solve (Mat (map (map Fin) B)) (map (map Fin) V) R (map Fin shift)
               = Inr (Mat (map (map Fin) X))
           \<and> rmat n t X
           \<and> (\<forall>c<t. \<forall>i<n. shift ! i * X ! i ! c
                   + (\<Sum>j<n. (\<Sum>a<k. V ! a ! i * V ! a ! j) * X ! j ! c) = B ! i ! c)"
  using assms by (rule woodbury_solve_correct)

theorem woodbury_solve_solves_system_witness:
  "rmat 2 3 [[1, 0, 0], [0, 1, 0]] \<and> pos_def 2 (spec_M [[1, 0, 0], [0, 1, 0]] [1, 1, 1])
   \<and> rmat 3 2 [[2, 4], [2, 0], [1, 3]]
   \<and> (\<exists>R x X. woodbury_factor (map (map Fin) [[1, 0, 0], [0, 1, 0]]) (map Fin [1, 1, 1]) = Inr R
          \<and> woodbury_solve (Vec (map Fin [2, 2, 1])) (map (map Fin) [[1, 0, 0], [0, 1, 0]]) R
               (map Fin [1, 1, 1]) = Inr (Vec (map Fin x))
          \<and> length x = 3
          \<and> (\<forall>i<3. [1, 1, 1] ! i * x ! i
                  + (\<Sum>j<3. (\<Sum>a<2. [[1, 0, 0], [0, 1, 0]] ! a ! i * [[1, 0, 0], [0, 1, 0]] ! a ! j) * x ! j)
                = [2, 2, 1] ! i)
          \<and> woodbury_solve (Mat (map (map Fin) [[2, 4], [2, 0], [1, 3]]))
               (map (map Fin) [[1, 0, 0], [0, 1, 0]]) R (map Fin [1, 1, 1])
               = Inr (Mat (map (map Fin) X))
          \<and> rmat 3 2 X
          \<and> (\<forall>c<2. \<forall>i<3. [1, 1, 1] ! i * X ! i ! c
                  + (\<Sum>j<3. (\<Sum>a<2. [[1, 0, 0], [0, 1, 0]] ! a ! i * [[1, 0, 0], [0, 1, 0]] ! a ! j)
                        * X ! j ! c)
                = [[2, 4], [2, 0], [1, 3]] ! i ! c))"
proof -
  have V: "rmat 2 3 [[1, 0, 0], [0, 1, 0 :: real]]" by (simp add: rmat_def)
  have B: "rmat 3 2 [[2, 4], [2, 0], [1, 3 :: real]]" by (simp add: rmat_def)
  have s: "length [1, 1, 1 :: real] = 3" and b: "length [2, 2, 1 :: real] = 3" by simp_all
  have nz: "\<forall>x\<in>set [1, 1, 1 :: real]. x \<noteq> 0" by simp
  from woodbury_solve_solves_system[OF V s b B _ _ nz example_pos_def] V B example_pos_def
  show ?thesis by simp
qed

section \<open>Full-rank recovery and the decrease of the error\<close>

lemma gather_Fin:
  "\<forall>i\<in>set idx. i < length v \<Longrightarrow> gather (map Fin v) idx = map Fin (gather v idx)"
  by (simp add: gather_def)

lemma scatter_map: "map f (scatter xs idx vs) = scatter (map f xs) idx (map f vs)"
  by (induction idx arbitrary: xs vs) (auto simp: map_update split: list.splits)

lemma max_dim_from_Fin:
  "\<exists>b j. max_dim_from (Fin a) ix i (map Fin vs) = (Fin b, j)
      \<and> a \<le> b \<and> (\<forall>t<length vs. vs ! t \<le> b)
      \<and> ((b = a \<and> j = ix) \<or> (i \<le> j \<and> j < i + length vs \<and> b = vs ! (j - i)))"
proof (induction vs arbitrary: a ix i)
  case Nil
  then show ?case by simp
next
  case (Cons v vs)
  have shift: "(v # vs) ! (j - i) = vs ! (j - Suc i)" if "Suc i \<le> j" for j
  proof -
    from that have "j - i = Suc (j - Suc i)" by arith
    then show ?thesis by simp
  qed
  show ?case
  proof (cases "v \<le> a")
    case True
    from Cons.IH[of a ix "Suc i"] obtain b j where
      h: "max_dim_from (Fin a) ix (Suc i) (map Fin vs) = (Fin b, j)" "a \<le> b"
         "\<forall>t<length vs. vs ! t \<le> b"
         "(b = a \<and> j = ix) \<or> (Suc i \<le> j \<and> j < Suc i + length vs \<and> b = vs ! (j - Suc i))"
      by blast
    have "\<forall>t<length (v # vs). (v # vs) ! t \<le> b"
      using h(2,3) True by (auto simp: nth_Cons split: nat.splits)
    moreover have "(b = a \<and> j = ix) \<or> (i \<le> j \<and> j < i + length (v # vs) \<and> b = (v # vs) ! (j - i))"
      using h(4) shift by auto
    ultimately show ?thesis using h(1,2) True by simp
  next
    case False
    from Cons.IH[of v i "Suc i"] obtain b j where
      h: "max_dim_from (Fin v) i (Suc i) (map Fin vs) = (Fin b, j)" "v \<le> b"
         "\<forall>t<length vs. vs ! t \<le> b"
         "(b = v \<and> j = i) \<or> (Suc i \<le> j \<and> j < Suc i + length vs \<and> b = vs ! (j - Suc i))"
      by blast
    have "\<forall>t<length (v # vs). (v # vs) ! t \<le> b"
      using h(2,3) by (auto simp: nth_Cons split: nat.splits)
    moreover have "i \<le> j \<and> j < i + length (v # vs) \<and> b = (v # vs) ! (j - i)"
      using h(4) shift by auto
    moreover have "a \<le> b" using False h(2) by simp
    ultimately show ?thesis using h(1) False by simp
  qed
qed

lemma max_dim_Fin:
  assumes "vs \<noteq> []"
  shows "\<exists>j<length vs. max_dim (map Fin vs) = (Fin (vs ! j), j) \<and> (\<forall>t<length vs. vs ! t \<le> vs ! j)"
proof -
  from assms obtain x xs where vs: "vs = x # xs" by (cases vs) auto
  from max_dim_from_Fin[of x 0 1 xs] obtain b j where
    h: "max_dim_from (Fin x) 0 1 (map Fin xs) = (Fin b, j)" "x \<le> b" "\<forall>t<length xs. xs ! t \<le> b"
       "(b = x \<and> j = 0) \<or> (1 \<le> j \<and> j < 1 + length xs \<and> b = xs ! (j - 1))"
    by blast
  have bj: "b = vs ! j" "j < length vs"
    using h(4) unfolding vs by (auto simp: nth_Cons split: nat.splits)
  have "\<forall>t<length vs. vs ! t \<le> b"
    using h(2,3) unfolding vs by (auto simp: nth_Cons split: nat.splits)
  with bj h(1) show ?thesis unfolding vs by auto
qed

lemma sum_rows_Fin:
  assumes "\<forall>r\<in>set rows. length r = len"
  shows "sum_rows len (map (map Fin) rows)
     = map Fin (map (\<lambda>t. \<Sum>r<length rows. rows ! r ! t) [0..<len])"
  using assms
proof (induction rows)
  case Nil
  have "replicate len (Fin 0) = map Fin (map (\<lambda>t. 0) [0..<len])"
    by (simp add: list_eq_iff_nth_eq)
  then show ?case by (simp add: sum_rows_def del: map_map)
next
  case (Cons r rows)
  have add: "map2 fl_add (map Fin u) (map Fin v) = map Fin (map2 (+) u v)" for u v
    by (induction u v rule: list_induct2') simp_all
  from Cons have IH: "sum_rows len (map (map Fin) rows)
      = map Fin (map (\<lambda>t. \<Sum>r<length rows. rows ! r ! t) [0..<len])" and lr: "length r = len"
    by simp_all
  have "sum_rows len (map (map Fin) (r # rows))
      = map2 fl_add (map Fin r) (sum_rows len (map (map Fin) rows))"
    by (simp add: sum_rows_def)
  also have "\<dots> = map Fin (map2 (+) r (map (\<lambda>t. \<Sum>r<length rows. rows ! r ! t) [0..<len]))"
    by (simp only: IH add)
  also have "map2 (+) r (map (\<lambda>t. \<Sum>r<length rows. rows ! r ! t) [0..<len])
      = map (\<lambda>t. \<Sum>ra<length (r # rows). (r # rows) ! ra ! t) [0..<len]"
    using lr by (simp add: list_eq_iff_nth_eq sum.lessThan_Suc_shift del: sum.lessThan_Suc)
  finally show ?case .
qed

lemma norm1_Fin: "norm1 (map Fin v) = Fin (sum_list (map abs v))"
  by (simp only: norm1_def abs_t_Fin sum_t_Fin)

lemma embed_simps [simp]:
  "matrix (embed A s) = map (map Fin) A"
  "matrix_diag (embed A s) = map Fin (rdiag s)"
  "permutation (embed A s) = rperm s"
  "L (embed A s) = map (map Fin) (rL s)"
  "errors (embed A s) = Fin (rerr s)"
  by (simp_all add: embed_def)

lemma pivot_selection:
  assumes p: "perm_ok n (rperm s)" and d: "length (rdiag s) = n" and m: "m < n"
  shows "m \<le> max_diag_indices m (embed A s) \<and> max_diag_indices m (embed A s) < n
       \<and> max_diag_values m (embed A s) = Fin (rdiag s ! (rperm s ! max_diag_indices m (embed A s)))
       \<and> (\<forall>a. m \<le> a \<and> a < n \<longrightarrow>
             rdiag s ! (rperm s ! a) \<le> rdiag s ! (rperm s ! max_diag_indices m (embed A s)))"
proof -
  let ?suf = "drop m (rperm s)"
  have lenp: "length (rperm s) = n" using p by (simp add: perm_ok_def)
  have inr: "\<forall>i\<in>set ?suf. i < length (rdiag s)"
    using p d by (auto simp: perm_ok_def dest: in_set_dropD)
  have g: "gather (map Fin (rdiag s)) ?suf = map Fin (gather (rdiag s) ?suf)"
    using inr by (rule gather_Fin)
  have ne: "gather (rdiag s) ?suf \<noteq> []" using m lenp by (simp add: gather_def)
  from max_dim_Fin[OF ne] obtain j where
    j: "j < length (gather (rdiag s) ?suf)"
    and mj: "max_dim (map Fin (gather (rdiag s) ?suf)) = (Fin (gather (rdiag s) ?suf ! j), j)"
    and mx: "\<forall>t<length (gather (rdiag s) ?suf). gather (rdiag s) ?suf ! t \<le> gather (rdiag s) ?suf ! j"
    by blast
  have lg: "length (gather (rdiag s) ?suf) = n - m" by (simp add: gather_def lenp)
  have gn: "gather (rdiag s) ?suf ! t = rdiag s ! (rperm s ! (m + t))" if "t < n - m" for t
    using that lenp by (simp add: gather_def)
  have idx: "max_diag_indices m (embed A s) = j + m"
    by (simp add: max_diag_indices_def g mj)
  have val: "max_diag_values m (embed A s) = Fin (rdiag s ! (rperm s ! (m + j)))"
    using j lg by (simp add: max_diag_values_def g mj gn)
  have "rdiag s ! (rperm s ! a) \<le> rdiag s ! (rperm s ! (m + j))" if "m \<le> a" "a < n" for a
  proof -
    from that have "a - m < n - m" by arith
    with mx lg have "gather (rdiag s) ?suf ! (a - m) \<le> gather (rdiag s) ?suf ! j" by simp
    with that j lg show ?thesis by (simp add: gn)
  qed
  with idx val j lg show ?thesis by (simp add: add.commute)
qed

lemma pi_m_embed:
  assumes "perm_ok n (rperm s)" "length (rdiag s) = n" "m < n"
  shows "pi_m m (embed A s) = rperm s ! max_diag_indices m (embed A s)"
  using pivot_selection[OF assms, of A] assms(1,3)
  by (simp add: pi_m_def pivot_perm_def swap_entries_def perm_ok_def nth_list_update)

lemma max_diag_values_embed:
  assumes "perm_ok n (rperm s)" "length (rdiag s) = n" "m < n"
  shows "max_diag_values m (embed A s) = Fin (rdiag s ! pi_m m (embed A s))"
  using pivot_selection[OF assms, of A] pi_m_embed[OF assms, of A] by simp

lemma pi_i_bound:
  assumes "perm_ok n (permutation st)" "m < n"
  shows "\<forall>i\<in>set (pi_i m st). i < n" and "distinct (pi_i m st)" and "length (pi_i m st) = n - Suc m"
proof -
  have ok: "perm_ok n (pivot_perm m st)"
    using perm_ok_pc_step[OF assms] by (simp add: permutation_pc_step2)
  then show "\<forall>i\<in>set (pi_i m st). i < n"
    by (auto simp: pi_i_def perm_ok_def dest: in_set_dropD)
  from ok show "distinct (pi_i m st)" by (simp add: pi_i_def perm_ok_def)
  from ok show "length (pi_i m st) = n - Suc m" by (simp add: pi_i_def perm_ok_def)
qed

lemma weighted_prev_rows:
  assumes T: "\<forall>r\<in>set T. length r = n" and p: "p < n" and I: "\<forall>i\<in>set I. i < n"
  shows "sum_rows (length I)
           (map2 (\<lambda>u r. map (fl_mul u) r) (map (\<lambda>r. r ! p) (map (map Fin) T))
              (map (\<lambda>r. gather r I) (map (map Fin) T)))
         = map Fin (map (\<lambda>i. \<Sum>r<length T. T ! r ! p * T ! r ! i) I)"
proof -
  define rows where "rows = map (\<lambda>r. map (\<lambda>i. r ! p * r ! i) I) T"
  have "map2 (\<lambda>u r. map (fl_mul u) r) (map (\<lambda>r. r ! p) (map (map Fin) T))
              (map (\<lambda>r. gather r I) (map (map Fin) T)) = map (map Fin) rows"
    using T unfolding rows_def
  proof (induction T)
    case Nil
    then show ?case by simp
  next
    case (Cons r T)
    have "map (fl_mul (map Fin r ! p)) (gather (map Fin r) I) = map Fin (map (\<lambda>i. r ! p * r ! i) I)"
      using Cons.prems p I by (simp add: gather_def)
    with Cons show ?case by simp
  qed
  moreover have "\<forall>r\<in>set rows. length r = length I" by (auto simp: rows_def)
  ultimately have "sum_rows (length I)
           (map2 (\<lambda>u r. map (fl_mul u) r) (map (\<lambda>r. r ! p) (map (map Fin) T))
              (map (\<lambda>r. gather r I) (map (map Fin) T)))
         = map Fin (map (\<lambda>t. \<Sum>r<length rows. rows ! r ! t) [0..<length I])"
    by (simp only: sum_rows_Fin)
  also have "map (\<lambda>t. \<Sum>r<length rows. rows ! r ! t) [0..<length I]
      = map (\<lambda>i. \<Sum>r<length T. T ! r ! p * T ! r ! i) I"
    by (rule nth_equalityI) (simp_all add: rows_def)
  finally show ?thesis .
qed

lemma L_m_new_embed:
  assumes p: "perm_ok n (rperm s)" and d: "length (rdiag s) = n" and A: "rmat n n A"
    and Lr: "rmat K n (rL s)" and m: "m < n" "m < K" and pos: "0 < rdiag s ! pi_m m (embed A s)"
  shows "L_m_diag m (embed A s)
           = map Fin ((rL s ! m)[pi_m m (embed A s) := sqrt (rdiag s ! pi_m m (embed A s))])"
    and "L_m_new m (embed A s)
           = map Fin (map (\<lambda>i. resid A (rL s) m (pi_m m (embed A s)) i
                                  / sqrt (rdiag s ! pi_m m (embed A s))) (pi_i m (embed A s)))"
proof -
  let ?st = "embed A s"
  let ?p = "pi_m m ?st" and ?I = "pi_i m ?st"
  let ?mx = "rdiag s ! ?p"
  have pst: "perm_ok n (permutation ?st)" using p by simp
  have pn: "?p < n" using pi_m_less[OF pst m(1)] .
  have In: "\<forall>i\<in>set ?I. i < n" using pi_i_bound(1)[OF pst m(1)] .
  have lenL: "length (rL s) = K" and rowsL: "\<forall>r\<in>set (rL s). length r = n"
    using Lr by (simp_all add: rmat_def)
  have lenrow: "length (rL s ! m) = n" using Lr m(2) by (simp add: rmat_def)
  have lenA: "length (A ! ?p) = n" using A pn by (simp add: rmat_def)
  show diag: "L_m_diag m ?st = map Fin ((rL s ! m)[?p := sqrt ?mx])"
    using pos m(2) lenL
    by (simp add: L_m_diag_def max_diag_values_embed[OF p d m(1)] map_update)
  have piv: "L_m_diag m ?st ! ?p = Fin (sqrt ?mx)"
    unfolding diag using pn lenrow by simp
  have sq: "sqrt ?mx \<noteq> 0" using pos by simp
  have gA: "gather (matrix ?st ! ?p) ?I = map Fin (gather (A ! ?p) ?I)"
    using A pn In lenA by (simp add: gather_def rmat_def)
  have num: "(if m > 0
            then sub_t (gather (matrix ?st ! ?p) ?I)
                   (sum_rows (length ?I)
                      (map2 (\<lambda>u r. map (fl_mul u) r)
                         (map (\<lambda>r. r ! ?p) (take m (L ?st)))
                         (map (\<lambda>r. gather r ?I) (take m (L ?st)))))
            else gather (matrix ?st ! ?p) ?I)
      = map Fin (map (\<lambda>i. resid A (rL s) m ?p i) ?I)"
  proof (cases "m > 0")
    case True
    have T: "\<forall>r\<in>set (take m (rL s)). length r = n"
      using rowsL by (auto dest: in_set_takeD)
    have lenT: "length (take m (rL s)) = m" using m(2) lenL by simp
    have "sum_rows (length ?I)
            (map2 (\<lambda>u r. map (fl_mul u) r)
               (map (\<lambda>r. r ! ?p) (take m (L ?st)))
               (map (\<lambda>r. gather r ?I) (take m (L ?st))))
        = map Fin (map (\<lambda>i. \<Sum>r<m. rL s ! r ! ?p * rL s ! r ! i) ?I)"
      using weighted_prev_rows[OF T pn In] lenT by (simp add: take_map)
    then have "sub_t (gather (matrix ?st ! ?p) ?I)
                   (sum_rows (length ?I)
                      (map2 (\<lambda>u r. map (fl_mul u) r)
                         (map (\<lambda>r. r ! ?p) (take m (L ?st)))
                         (map (\<lambda>r. gather r ?I) (take m (L ?st)))))
        = map Fin (map2 (-) (gather (A ! ?p) ?I) (map (\<lambda>i. \<Sum>r<m. rL s ! r ! ?p * rL s ! r ! i) ?I))"
      by (simp only: gA sub_t_Fin)
    also have "map2 (-) (gather (A ! ?p) ?I) (map (\<lambda>i. \<Sum>r<m. rL s ! r ! ?p * rL s ! r ! i) ?I)
        = map (\<lambda>i. resid A (rL s) m ?p i) ?I"
      by (rule nth_equalityI) (simp_all add: gather_def resid_def)
    finally show ?thesis using True by simp
  next
    case False
    then have "gather (A ! ?p) ?I = map (\<lambda>i. resid A (rL s) m ?p i) ?I"
      by (simp add: gather_def resid_def)
    with False gA show ?thesis by simp
  qed
  have "div_t (map Fin (map (\<lambda>i. resid A (rL s) m ?p i) ?I)) (Fin (sqrt ?mx))
      = map Fin (map (\<lambda>x. x / sqrt ?mx) (map (\<lambda>i. resid A (rL s) m ?p i) ?I))"
    using sq by (rule div_t_Fin)
  also have "map (\<lambda>x. x / sqrt ?mx) (map (\<lambda>i. resid A (rL s) m ?p i) ?I)
      = map (\<lambda>i. resid A (rL s) m ?p i / sqrt ?mx) ?I"
    by simp
  finally show "L_m_new m ?st = map Fin (map (\<lambda>i. resid A (rL s) m ?p i / sqrt ?mx) ?I)"
    unfolding L_m_new_def num piv .
qed

lemma step_embed:
  assumes p: "perm_ok n (rperm s)" and d: "length (rdiag s) = n" and A: "rmat n n A"
    and Lr: "rmat K n (rL s)" and m: "m < n" "m < K" and pos: "0 < rdiag s ! pi_m m (embed A s)"
  shows "pc_step n m (embed A s) = embed A (rstep A n m s)"
proof -
  let ?st = "embed A s"
  let ?p = "pi_m m ?st" and ?I = "pi_i m ?st"
  let ?mx = "rdiag s ! ?p"
  let ?new = "map (\<lambda>i. resid A (rL s) m ?p i / sqrt ?mx) ?I"
  let ?dg = "scatter (rdiag s) ?I (map2 (-) (gather (rdiag s) ?I) (map2 (*) ?new ?new))"
  note Ld = L_m_new_embed(1)[OF assms] and Ln = L_m_new_embed(2)[OF assms]
  have pst: "perm_ok n (permutation ?st)" using p by simp
  have In: "\<forall>i\<in>set ?I. i < n" using pi_i_bound(1)[OF pst m(1)] .
  have lenL: "length (rL s) = K" using Lr by (simp add: rmat_def)
  have gd: "gather (matrix_diag ?st) ?I = map Fin (gather (rdiag s) ?I)"
    using In d by (simp add: gather_Fin)
  have dd: "diag_deflated m ?st = map Fin ?dg"
    unfolding diag_deflated_def gd Ln by (simp only: mul_t_Fin sub_t_Fin embed_simps scatter_map)
  have In': "\<forall>i\<in>set ?I. i < length ?dg" using In d by (simp add: length_scatter)
  have err: "norm1 (gather (map Fin ?dg) ?I) = Fin (sum_list (map abs (gather ?dg ?I)))"
    by (simp only: gather_Fin[OF In'] norm1_Fin)
  have row: "scatter (L_m_diag m ?st) ?I (L_m_new m ?st)
      = map Fin (scatter ((rL s ! m)[?p := sqrt ?mx]) ?I ?new)"
    unfolding Ld Ln by (simp only: scatter_map)
  show ?thesis
  proof (cases "m + 1 < n")
    case True
    have r: "rstep A n m s = \<lparr>rdiag = ?dg, rperm = pivot_perm m ?st,
        rL = (rL s)[m := scatter ((rL s ! m)[?p := sqrt ?mx]) ?I ?new],
        rerr = sum_list (map abs (gather ?dg ?I))\<rparr>"
      using True by (simp add: rstep_def Let_def)
    have "pc_step n m ?st = ?st\<lparr>matrix_diag := diag_deflated m ?st, permutation := pivot_perm m ?st,
              L := (L ?st)[m := scatter (L_m_diag m ?st) ?I (L_m_new m ?st)],
              errors := norm1 (gather (diag_deflated m ?st) ?I)\<rparr>"
      using True by (simp add: pc_step_unfold)
    also have "\<dots> = ?st\<lparr>matrix_diag := map Fin ?dg, permutation := pivot_perm m ?st,
              L := (map (map Fin) (rL s))[m := map Fin (scatter ((rL s ! m)[?p := sqrt ?mx]) ?I ?new)],
              errors := Fin (sum_list (map abs (gather ?dg ?I)))\<rparr>"
      unfolding dd err row by (simp only: embed_simps)
    also have "\<dots> = embed A (rstep A n m s)"
      unfolding r by (simp add: embed_def map_update)
    finally show ?thesis .
  next
    case False
    have r: "rstep A n m s = s\<lparr>rperm := pivot_perm m ?st, rL := (rL s)[m := (rL s ! m)[?p := sqrt ?mx]]\<rparr>"
      using False by (simp add: rstep_def Let_def)
    have "pc_step n m ?st = ?st\<lparr>permutation := pivot_perm m ?st, L := (L ?st)[m := L_m_diag m ?st]\<rparr>"
      using False by (simp add: pc_step_unfold)
    also have "\<dots> = ?st\<lparr>permutation := pivot_perm m ?st,
        L := (map (map Fin) (rL s))[m := map Fin ((rL s ! m)[?p := sqrt ?mx])]\<rparr>"
      by (simp only: Ld embed_simps)
    also have "\<dots> = embed A (rstep A n m s)"
      unfolding r by (simp add: embed_def map_update)
    finally show ?thesis .
  qed
qed

lemma sum_unit_left: "p < (n::nat) \<Longrightarrow> (\<Sum>i<n. (if i = p then 1 else 0) * f i) = (f p :: real)"
proof -
  assume p: "p < n"
  have "(\<Sum>i<n. (if i = p then 1 else 0) * f i) = (\<Sum>i<n. if i = p then f i else 0)"
    by (intro sum.cong refl) simp
  also have "\<dots> = f p" using p by simp
  finally show ?thesis .
qed

lemma sum_unit_right: "p < (n::nat) \<Longrightarrow> (\<Sum>i<n. f i * (if i = p then 1 else 0)) = (f p :: real)"
proof -
  assume p: "p < n"
  have "(\<Sum>i<n. f i * (if i = p then 1 else 0)) = (\<Sum>i<n. if i = p then f i else 0)"
    by (intro sum.cong refl) simp
  also have "\<dots> = f p" using p by simp
  finally show ?thesis .
qed

lemma quad_form_sub_unit:
  assumes p: "p < n"
  shows "quad_form n S (\<lambda>i. x i - t * (if i = p then 1 else 0))
     = quad_form n S x - t * (\<Sum>j<n. S p j * x j) - t * (\<Sum>i<n. x i * S i p) + t * t * S p p"
proof -
  let ?e = "\<lambda>i. if i = p then 1 else (0::real)"
  have inner: "(\<Sum>j<n. S i j * (x j - t * ?e j)) = (\<Sum>j<n. S i j * x j) - t * S i p" for i
  proof -
    have "(\<Sum>j<n. S i j * (x j - t * ?e j)) = (\<Sum>j<n. S i j * x j - t * (S i j * ?e j))"
      by (intro sum.cong refl) (simp add: algebra_simps)
    also have "\<dots> = (\<Sum>j<n. S i j * x j) - t * (\<Sum>j<n. S i j * ?e j)"
      by (simp only: sum_subtractf sum_distrib_left)
    finally show ?thesis by (simp only: sum_unit_right[OF p])
  qed
  define r where "r = (\<lambda>i. (\<Sum>j<n. S i j * x j) - t * S i p)"
  have "quad_form n S (\<lambda>i. x i - t * ?e i) = (\<Sum>i<n. (x i - t * ?e i) * r i)"
    unfolding quad_form_def r_def inner[symmetric]
    by (intro sum.cong refl) (simp only: sum_distrib_left mult.assoc)
  also have "\<dots> = (\<Sum>i<n. x i * r i - t * (?e i * r i))"
    by (intro sum.cong refl) (simp add: algebra_simps)
  also have "\<dots> = (\<Sum>i<n. x i * r i) - t * (\<Sum>i<n. ?e i * r i)"
    by (simp only: sum_subtractf sum_distrib_left)
  also have "(\<Sum>i<n. ?e i * r i) = r p" by (rule sum_unit_left[OF p])
  also have "(\<Sum>i<n. x i * r i) = (\<Sum>i<n. x i * (\<Sum>j<n. S i j * x j) - t * (x i * S i p))"
    unfolding r_def by (intro sum.cong refl) (simp add: algebra_simps)
  also have "\<dots> = (\<Sum>i<n. x i * (\<Sum>j<n. S i j * x j)) - t * (\<Sum>i<n. x i * S i p)"
    by (simp only: sum_subtractf sum_distrib_left)
  also have "(\<Sum>i<n. x i * (\<Sum>j<n. S i j * x j)) = quad_form n S x"
    unfolding quad_form_def by (simp only: sum_distrib_left mult.assoc)
  finally show ?thesis by (simp add: r_def algebra_simps)
qed

lemma quad_form_unit: "i < k \<Longrightarrow> quad_form k M (\<lambda>j. if j = i then 1 else 0) = M i i"
proof -
  assume i: "i < k"
  have "quad_form k M (\<lambda>j. 0 - (- 1) * (if j = i then 1 else 0))
      = quad_form k M (\<lambda>j. 0) - (- 1) * (\<Sum>j<k. M i j * 0) - (- 1) * (\<Sum>a<k. 0 * M a i)
         + (- 1) * (- 1) * M i i"
    by (rule quad_form_sub_unit[OF i])
  then show ?thesis by (simp add: quad_form_def)
qed

lemma psd_diag:
  assumes "psd n S" "i < n"
  shows "0 \<le> S i i"
proof -
  have "0 \<le> quad_form n S (\<lambda>j. if j = i then 1 else 0)"
    by (rule assms(1)[unfolded psd_def, rule_format])
  then show ?thesis by (simp only: quad_form_unit[OF assms(2)])
qed

lemma psd_downdate:
  assumes psd: "psd n S" and sym: "symmetric n S" and p: "p < n" and d: "0 < S p p"
  shows "psd n (\<lambda>i j. S i j - S p i * S p j / S p p)"
  unfolding psd_def
proof
  fix x :: "nat \<Rightarrow> real"
  define q where "q = (\<Sum>j<n. S p j * x j)"
  define t where "t = q / S p p"
  have q': "(\<Sum>i<n. x i * S i p) = q"
    unfolding q_def using sym p by (intro sum.cong refl) (simp add: symmetric_def mult.commute)
  have "quad_form n (\<lambda>i j. S i j - S p i * S p j / S p p) x
      = (\<Sum>i<n. \<Sum>j<n. x i * S i j * x j - (S p i * x i) * (S p j * x j) / S p p)"
    unfolding quad_form_def by (intro sum.cong refl) (simp add: algebra_simps)
  also have "\<dots> = quad_form n S x - (\<Sum>i<n. \<Sum>j<n. (S p i * x i) * (S p j * x j) / S p p)"
    unfolding quad_form_def by (simp only: sum_subtractf)
  also have "(\<Sum>i<n. \<Sum>j<n. (S p i * x i) * (S p j * x j) / S p p) = q * q / S p p"
    unfolding q_def by (simp only: sum_divide_distrib[symmetric] sum_product)
  finally have lhs: "quad_form n (\<lambda>i j. S i j - S p i * S p j / S p p) x
      = quad_form n S x - q * q / S p p" .
  have "quad_form n S (\<lambda>i. x i - t * (if i = p then 1 else 0))
      = quad_form n S x - t * q - t * q + t * t * S p p"
    using quad_form_sub_unit[OF p, of S x t] by (simp only: q' q_def[symmetric])
  also have "\<dots> = quad_form n S x - q * q / S p p"
    using d by (simp add: t_def field_simps)
  finally have "quad_form n (\<lambda>i j. S i j - S p i * S p j / S p p) x
      = quad_form n S (\<lambda>i. x i - t * (if i = p then 1 else 0))"
    using lhs by simp
  moreover have "0 \<le> quad_form n S (\<lambda>i. x i - t * (if i = p then 1 else 0))"
    by (rule psd[unfolded psd_def, rule_format])
  ultimately show "0 \<le> quad_form n (\<lambda>i j. S i j - S p i * S p j / S p p) x"
    by simp
qed

lemma psd_zero_diag:
  assumes psd: "psd n S" and sym: "symmetric n S" and i: "i < n" and j: "j < n"
    and di: "S i i = 0" and dj: "S j j = 0"
  shows "S i j = 0"
proof -
  let ?e = "\<lambda>k. if k = j then 1 else (0::real)"
  have sji: "S j i = S i j" using sym i j by (simp add: symmetric_def)
  have "quad_form n S (\<lambda>k. ?e k - S i j * (if k = i then 1 else 0))
      = quad_form n S ?e - S i j * (\<Sum>b<n. S i b * ?e b) - S i j * (\<Sum>a<n. ?e a * S a i)
         + S i j * S i j * S i i"
    by (rule quad_form_sub_unit[OF i])
  also have "\<dots> = - 2 * (S i j * S i j)"
    by (simp only: quad_form_unit[OF j] sum_unit_right[OF j] sum_unit_left[OF j] di dj sji)
  finally have "quad_form n S (\<lambda>k. ?e k - S i j * (if k = i then 1 else 0)) = - 2 * (S i j * S i j)" .
  moreover have "0 \<le> quad_form n S (\<lambda>k. ?e k - S i j * (if k = i then 1 else 0))"
    by (rule psd[unfolded psd_def, rule_format])
  ultimately have "0 \<le> - 2 * (S i j * S i j)" by simp
  then have "S i j * S i j \<le> 0" by simp
  then show ?thesis by (auto simp: mult_le_0_iff)
qed

lemma resid_sym: "symmetric n (ent A) \<Longrightarrow> symmetric n (resid A Lr m)"
  by (simp add: symmetric_def resid_def ent_def mult.commute)

lemma psd_cong:
  assumes "\<And>i j. i < n \<Longrightarrow> j < n \<Longrightarrow> M i j = N i j"
  shows "psd n M = psd n N"
proof -
  have "quad_form n M x = quad_form n N x" for x
    unfolding quad_form_def by (intro sum.cong refl) (simp add: assms)
  then show ?thesis by (simp add: psd_def)
qed

text \<open>The swap of positions \<open>m\<close> and \<open>j \<ge> m\<close>.\<close>

lemma take_swap: "m \<le> j \<Longrightarrow> take m (swap_entries m j p) = take m p"
  by (simp add: swap_entries_def)

lemma set_drop_swap:
  assumes "m \<le> j" "j < length p"
  shows "set (drop m (swap_entries m j p)) = set (drop m p)"
proof -
  define d where "d = drop m p"
  have len: "0 < length d" "j - m < length d" using assms by (auto simp: d_def)
  have "d ! (j - m) = p ! j" "d ! 0 = p ! m" using assms by (simp_all add: d_def)
  then have "drop m (swap_entries m j p) = d[0 := d ! (j - m), j - m := d ! 0]"
    using assms by (simp add: swap_entries_def drop_update_swap d_def[symmetric])
  moreover have "set (d[0 := d ! (j - m), j - m := d ! 0]) = set d"
    using len by (rule set_swap)
  ultimately show ?thesis by (simp only: d_def)
qed

lemma nth_swap_m: "m \<le> j \<Longrightarrow> j < length p \<Longrightarrow> swap_entries m j p ! m = p ! j"
  by (simp add: swap_entries_def nth_list_update)

lemma sum_list_suffix_swap:
  fixes f :: "nat \<Rightarrow> real"
  assumes "distinct p" "m \<le> j" "j < length p"
  shows "sum_list (map f (drop m (swap_entries m j p))) = sum_list (map f (drop m p))"
proof -
  have d': "distinct (swap_entries m j p)"
    using assms by (simp add: swap_entries_def distinct_swap)
  have "sum_list (map f (drop m (swap_entries m j p))) = sum f (set (drop m (swap_entries m j p)))"
    using d' by (intro sum_list_distinct_conv_sum_set) simp
  also have "\<dots> = sum f (set (drop m p))" by (simp only: set_drop_swap[OF assms(2,3)])
  also have "\<dots> = sum_list (map f (drop m p))"
    using assms(1) by (intro sum_list_distinct_conv_sum_set[symmetric]) simp
  finally show ?thesis .
qed

text \<open>The facts of one pass that only need the shape of the state.\<close>

lemma pass_shape:
  assumes p: "perm_ok n (rperm s)" and d: "length (rdiag s) = n" and m: "m < n"
  shows "perm_ok n (pivot_perm m (embed A s))"
    and "take m (pivot_perm m (embed A s)) = take m (rperm s)"
    and "set (drop m (pivot_perm m (embed A s))) = set (drop m (rperm s))"
    and "drop m (pivot_perm m (embed A s)) = pi_m m (embed A s) # pi_i m (embed A s)"
    and "pi_m m (embed A s) \<in> set (drop m (rperm s))"
    and "\<forall>i\<in>set (drop m (rperm s)). rdiag s ! i \<le> rdiag s ! pi_m m (embed A s)"
proof -
  let ?st = "embed A s"
  let ?j = "max_diag_indices m ?st"
  note sel = pivot_selection[OF assms, of A]
  have lenp: "length (rperm s) = n" using p by (simp add: perm_ok_def)
  have j: "m \<le> ?j" "?j < length (rperm s)" using sel lenp by simp_all
  have pst: "perm_ok n (permutation ?st)" using p by simp
  show ok: "perm_ok n (pivot_perm m ?st)"
    using perm_ok_pc_step[OF pst m] by (simp add: permutation_pc_step2)
  show "take m (pivot_perm m ?st) = take m (rperm s)"
    using j(1) by (simp add: pivot_perm_def take_swap)
  show sd: "set (drop m (pivot_perm m ?st)) = set (drop m (rperm s))"
    using j by (simp add: pivot_perm_def set_drop_swap)
  have "m < length (pivot_perm m ?st)" using ok m by (simp add: perm_ok_def)
  then show dr: "drop m (pivot_perm m ?st) = pi_m m ?st # pi_i m ?st"
    by (simp add: pi_m_def pi_i_def Cons_nth_drop_Suc)
  from dr sd show "pi_m m ?st \<in> set (drop m (rperm s))" by (metis list.set_intros(1))
  show "\<forall>i\<in>set (drop m (rperm s)). rdiag s ! i \<le> rdiag s ! pi_m m ?st"
  proof
    fix i assume "i \<in> set (drop m (rperm s))"
    then obtain t where t: "t < length (drop m (rperm s))" "drop m (rperm s) ! t = i"
      by (auto simp: in_set_conv_nth)
    then have "i = rperm s ! (m + t)" "m + t < n" using lenp by auto
    with sel show "rdiag s ! i \<le> rdiag s ! pi_m m ?st"
      by (simp add: pi_m_embed[OF assms])
  qed
qed

lemma index_cases:
  assumes p: "perm_ok n (rperm s)" and d: "length (rdiag s) = n" and m: "m < n" and i: "i < n"
  shows "i = pi_m m (embed A s) \<or> i \<in> set (pi_i m (embed A s)) \<or> i \<in> set (take m (rperm s))"
proof -
  note sh = pass_shape[OF p d m, of A]
  have "i \<in> set (pivot_perm m (embed A s))" using sh(1) i by (simp add: perm_ok_def)
  then have "i \<in> set (take m (pivot_perm m (embed A s))) \<or> i \<in> set (drop m (pivot_perm m (embed A s)))"
    by (metis append_take_drop_id set_append Un_iff)
  then show ?thesis unfolding sh(2) sh(4) by auto
qed

lemma prefix_not_suffix:
  assumes p: "perm_ok n (rperm s)" and d: "length (rdiag s) = n" and m: "m < n"
    and i: "i \<in> set (take m (rperm s))"
  shows "i \<noteq> pi_m m (embed A s)" and "i \<notin> set (pi_i m (embed A s))"
proof -
  note sh = pass_shape[OF p d m, of A]
  have "distinct (take m (pivot_perm m (embed A s)) @ drop m (pivot_perm m (embed A s)))"
    using sh(1) by (simp add: perm_ok_def)
  then have "set (take m (pivot_perm m (embed A s))) \<inter> set (drop m (pivot_perm m (embed A s))) = {}"
    by (simp only: distinct_append)
  with i show "i \<noteq> pi_m m (embed A s)" and "i \<notin> set (pi_i m (embed A s))"
    unfolding sh(2) sh(4) by auto
qed

lemma rstep_simps:
  "rperm (rstep A n m s) = pivot_perm m (embed A s)"
  "rL (rstep A n m s) =
     (rL s)[m := (if m + 1 < n
                  then scatter ((rL s ! m)[pi_m m (embed A s) := sqrt (rdiag s ! pi_m m (embed A s))])
                         (pi_i m (embed A s))
                         (map (\<lambda>i. resid A (rL s) m (pi_m m (embed A s)) i
                                      / sqrt (rdiag s ! pi_m m (embed A s))) (pi_i m (embed A s)))
                  else (rL s ! m)[pi_m m (embed A s) := sqrt (rdiag s ! pi_m m (embed A s))])]"
  "rdiag (rstep A n m s) =
     (if m + 1 < n
      then scatter (rdiag s) (pi_i m (embed A s))
             (map (\<lambda>i. rdiag s ! i - (resid A (rL s) m (pi_m m (embed A s)) i
                                          / sqrt (rdiag s ! pi_m m (embed A s)))
                                      * (resid A (rL s) m (pi_m m (embed A s)) i
                                          / sqrt (rdiag s ! pi_m m (embed A s)))) (pi_i m (embed A s)))
      else rdiag s)"
  "rerr (rstep A n m s) =
     (if m + 1 < n
      then sum_list (map (\<lambda>i. \<bar>rdiag (rstep A n m s) ! i\<bar>) (pi_i m (embed A s)))
      else rerr s)"
proof -
  show "rperm (rstep A n m s) = pivot_perm m (embed A s)"
    by (simp add: rstep_def Let_def)
  show "rL (rstep A n m s) =
     (rL s)[m := (if m + 1 < n
                  then scatter ((rL s ! m)[pi_m m (embed A s) := sqrt (rdiag s ! pi_m m (embed A s))])
                         (pi_i m (embed A s))
                         (map (\<lambda>i. resid A (rL s) m (pi_m m (embed A s)) i
                                      / sqrt (rdiag s ! pi_m m (embed A s))) (pi_i m (embed A s)))
                  else (rL s ! m)[pi_m m (embed A s) := sqrt (rdiag s ! pi_m m (embed A s))])]"
    by (simp add: rstep_def Let_def)
  have g: "map2 (-) (gather d I) (map2 (*) (map f I) (map f I)) = map (\<lambda>i. d ! i - f i * f i) I"
    for d :: "real list" and I and f :: "nat \<Rightarrow> real"
    by (rule nth_equalityI) (simp_all add: gather_def)
  show d: "rdiag (rstep A n m s) =
     (if m + 1 < n
      then scatter (rdiag s) (pi_i m (embed A s))
             (map (\<lambda>i. rdiag s ! i - (resid A (rL s) m (pi_m m (embed A s)) i
                                          / sqrt (rdiag s ! pi_m m (embed A s)))
                                      * (resid A (rL s) m (pi_m m (embed A s)) i
                                          / sqrt (rdiag s ! pi_m m (embed A s)))) (pi_i m (embed A s)))
      else rdiag s)"
    by (simp only: rstep_def Let_def g) simp
  show "rerr (rstep A n m s) =
     (if m + 1 < n
      then sum_list (map (\<lambda>i. \<bar>rdiag (rstep A n m s) ! i\<bar>) (pi_i m (embed A s)))
      else rerr s)"
    by (simp add: rstep_def Let_def gather_def comp_def)
qed

lemma sum_list_abs_pos:
  fixes f :: "nat \<Rightarrow> real"
  assumes "0 < sum_list (map (\<lambda>i. \<bar>f i\<bar>) xs)"
  shows "\<exists>i\<in>set xs. f i \<noteq> 0"
proof (rule ccontr)
  assume "\<not> (\<exists>i\<in>set xs. f i \<noteq> 0)"
  then have "sum_list (map (\<lambda>i. \<bar>f i\<bar>) xs) = 0" by (induction xs) auto
  with assms show False by simp
qed

lemma pivot_positive:
  assumes ok: "pass_ok A n K m s"
  shows "pi_m m (embed A s) < n"
    and "rdiag s ! pi_m m (embed A s) = resid A (rL s) m (pi_m m (embed A s)) (pi_m m (embed A s))"
    and "0 < rdiag s ! pi_m m (embed A s)"
proof -
  from ok have inv: "pc_inv A n K m s" and m: "m < n" and e: "0 < rerr s"
    by (simp_all add: pass_ok_def)
  from inv have p: "perm_ok n (rperm s)" and d: "length (rdiag s) = n"
    and psd: "psd n (resid A (rL s) m)"
    and dg: "\<forall>i\<in>set (drop m (rperm s)). rdiag s ! i = resid A (rL s) m i i"
    and er: "rerr s = sum_list (map (\<lambda>i. \<bar>rdiag s ! i\<bar>) (drop m (rperm s)))"
    using m by (simp_all add: pc_inv_def)
  note sh = pass_shape[OF p d m, of A]
  have pst: "perm_ok n (permutation (embed A s))" using p by simp
  show pn: "pi_m m (embed A s) < n" using pi_m_less[OF pst m] .
  show "rdiag s ! pi_m m (embed A s) = resid A (rL s) m (pi_m m (embed A s)) (pi_m m (embed A s))"
    using dg sh(5) by blast
  from e er sum_list_abs_pos[of "\<lambda>i. rdiag s ! i" "drop m (rperm s)"]
  obtain i where i: "i \<in> set (drop m (rperm s))" "rdiag s ! i \<noteq> 0" by auto
  have "i < n" using i(1) p by (auto simp: perm_ok_def dest: in_set_dropD)
  then have "0 \<le> resid A (rL s) m i i" using psd by (intro psd_diag)
  with dg i have "0 < rdiag s ! i" by simp
  also have "rdiag s ! i \<le> rdiag s ! pi_m m (embed A s)" using sh(6) i(1) by blast
  finally show "0 < rdiag s ! pi_m m (embed A s)" .
qed

lemma new_row_entries:
  assumes ok: "pass_ok A n K m s" and i: "i < n"
  shows "rL (rstep A n m s) ! m ! i
     = resid A (rL s) m (pi_m m (embed A s)) i / sqrt (rdiag s ! pi_m m (embed A s))"
proof -
  let ?p = "pi_m m (embed A s)" and ?I = "pi_i m (embed A s)"
  let ?mx = "rdiag s ! ?p"
  let ?row0 = "(rL s ! m)[?p := sqrt ?mx]"
  let ?new = "map (\<lambda>i. resid A (rL s) m ?p i / sqrt ?mx) ?I"
  from ok have inv: "pc_inv A n K m s" and mK: "m < K" and m: "m < n"
    and sym: "symmetric n (ent A)"
    by (simp_all add: pass_ok_def)
  from inv have p: "perm_ok n (rperm s)" and d: "length (rdiag s) = n" and Lr: "rmat K n (rL s)"
    and zero: "\<forall>r. m \<le> r \<and> r < K \<longrightarrow> (\<forall>i<n. rL s ! r ! i = 0)"
    and pre: "\<forall>i\<in>set (take m (rperm s)). \<forall>j<n. resid A (rL s) m i j = 0"
    by (simp_all add: pc_inv_def)
  note piv = pivot_positive[OF ok]
  have pst: "perm_ok n (permutation (embed A s))" using p by simp
  note I = pi_i_bound[OF pst m]
  have notin: "?p \<notin> set ?I" using pi_m_not_in_pi_i[OF pst m] .
  have lenrow: "length (rL s ! m) = n" using Lr mK by (simp add: rmat_def)
  have lenL: "m < length (rL s)" using Lr mK by (simp add: rmat_def)
  define row where "row = (if m + 1 < n then scatter ?row0 ?I ?new else ?row0)"
  have Lm: "rL (rstep A n m s) ! m = row"
    using lenL by (simp add: rstep_simps(2) row_def)
  have I_empty: "?I = []" if "\<not> m + 1 < n"
    using that I(3) by simp
  have out: "row ! k = ?row0 ! k" if "k \<notin> set ?I" for k
    using that by (simp add: row_def scatter_outside)
  from index_cases[OF p d m i, of A] show ?thesis
  proof (elim disjE)
    assume ip: "i = ?p"
    have "row ! ?p = sqrt ?mx" using out[OF notin] piv(1) lenrow by simp
    also have "\<dots> = ?mx / sqrt ?mx" using piv(3) by (simp add: real_div_sqrt)
    finally show ?thesis unfolding Lm ip using piv(2) by simp
  next
    assume iI: "i \<in> set ?I"
    then obtain t where t: "t < length ?I" "?I ! t = i" by (auto simp: in_set_conv_nth)
    from iI have mn: "m + 1 < n" using I_empty by fastforce
    have "scatter ?row0 ?I ?new ! (?I ! t) = ?new ! t"
      using I(2) t(1) I(1) lenrow by (intro scatter_inside) auto
    then show ?thesis unfolding Lm row_def using mn t by simp
  next
    assume ipre: "i \<in> set (take m (rperm s))"
    note ns = prefix_not_suffix[OF p d m ipre, of A]
    have "row ! i = rL s ! m ! i" using out[OF ns(2)] ns(1) by simp
    also have "\<dots> = 0" using zero mK i by simp
    finally have r0: "row ! i = 0" .
    have "resid A (rL s) m ?p i = resid A (rL s) m i ?p"
      using resid_sym[OF sym, of "rL s" m] piv(1) i by (simp add: symmetric_def)
    also have "\<dots> = 0" using pre ipre piv(1) by blast
    finally show ?thesis unfolding Lm r0 by simp
  qed
qed

lemma resid_step:
  assumes ok: "pass_ok A n K m s" and i: "i < n" and j: "j < n"
  shows "resid A (rL (rstep A n m s)) (Suc m) i j
     = resid A (rL s) m i j
       - resid A (rL s) m (pi_m m (embed A s)) i * resid A (rL s) m (pi_m m (embed A s)) j
           / resid A (rL s) m (pi_m m (embed A s)) (pi_m m (embed A s))"
proof -
  let ?p = "pi_m m (embed A s)"
  let ?S = "resid A (rL s) m"
  note piv = pivot_positive[OF ok]
  have prev: "rL (rstep A n m s) ! r = rL s ! r" if "r < m" for r
    using that by (simp add: rstep_simps(2))
  have sq: "sqrt (?S ?p ?p) * sqrt (?S ?p ?p) = ?S ?p ?p"
    using piv(2,3) by simp
  have "resid A (rL (rstep A n m s)) (Suc m) i j
      = A ! i ! j - ((\<Sum>r<m. rL (rstep A n m s) ! r ! i * rL (rstep A n m s) ! r ! j)
          + rL (rstep A n m s) ! m ! i * rL (rstep A n m s) ! m ! j)"
    by (simp add: resid_def)
  also have "(\<Sum>r<m. rL (rstep A n m s) ! r ! i * rL (rstep A n m s) ! r ! j)
      = (\<Sum>r<m. rL s ! r ! i * rL s ! r ! j)"
    by (intro sum.cong refl) (simp add: prev)
  also have "rL (rstep A n m s) ! m ! i * rL (rstep A n m s) ! m ! j
      = (?S ?p i / sqrt (?S ?p ?p)) * (?S ?p j / sqrt (?S ?p ?p))"
    by (simp only: new_row_entries[OF ok i] new_row_entries[OF ok j] piv(2))
  also have "\<dots> = ?S ?p i * ?S ?p j / ?S ?p ?p"
    by (simp only: times_divide_times_eq sq)
  finally show ?thesis by (simp add: resid_def)
qed

lemma deflated_entries:
  assumes ok: "pass_ok A n K m s" and i: "i \<in> set (pi_i m (embed A s))"
  shows "rdiag (rstep A n m s) ! i = resid A (rL (rstep A n m s)) (Suc m) i i"
    and "0 \<le> rdiag (rstep A n m s) ! i" and "rdiag (rstep A n m s) ! i \<le> rdiag s ! i"
    and "0 \<le> rdiag s ! i"
proof -
  let ?p = "pi_m m (embed A s)" and ?I = "pi_i m (embed A s)"
  let ?S = "resid A (rL s) m"
  from ok have inv: "pc_inv A n K m s" and m: "m < n" by (simp_all add: pass_ok_def)
  from inv have p: "perm_ok n (rperm s)" and d: "length (rdiag s) = n"
    and psd: "psd n ?S"
    and dg: "\<forall>i\<in>set (drop m (rperm s)). rdiag s ! i = ?S i i"
    by (simp_all add: pc_inv_def)
  note piv = pivot_positive[OF ok]
  note sh = pass_shape[OF p d m, of A]
  have pst: "perm_ok n (permutation (embed A s))" using p by simp
  note I = pi_i_bound[OF pst m]
  have iN: "i < n" using I(1) i by blast
  have mn: "m + 1 < n" using i I(3) by (cases "m + 1 < n") auto
  have isuf: "i \<in> set (drop m (rperm s))"
    using i sh(3) sh(4) by (metis list.set_intros(2))
  have dgi: "rdiag s ! i = ?S i i" using dg isuf by blast
  from i obtain t where t: "t < length ?I" "?I ! t = i" by (auto simp: in_set_conv_nth)
  let ?vals = "map (\<lambda>i. rdiag s ! i - (?S ?p i / sqrt (rdiag s ! ?p)) * (?S ?p i / sqrt (rdiag s ! ?p))) ?I"
  have "scatter (rdiag s) ?I ?vals ! (?I ! t) = ?vals ! t"
    using I(2) t(1) I(1) d by (intro scatter_inside) auto
  then have val: "rdiag (rstep A n m s) ! i
      = rdiag s ! i - (?S ?p i / sqrt (rdiag s ! ?p)) * (?S ?p i / sqrt (rdiag s ! ?p))"
    using mn t by (simp add: rstep_simps(3))
  have sq: "sqrt (rdiag s ! ?p) * sqrt (rdiag s ! ?p) = ?S ?p ?p" using piv(2,3) by simp
  have val': "rdiag (rstep A n m s) ! i = ?S i i - ?S ?p i * ?S ?p i / ?S ?p ?p"
    unfolding val dgi by (simp only: times_divide_times_eq sq)
  show eq: "rdiag (rstep A n m s) ! i = resid A (rL (rstep A n m s)) (Suc m) i i"
    unfolding val' by (simp only: resid_step[OF ok iN iN])
  have sym': "symmetric n ?S" using ok by (simp add: pass_ok_def resid_sym)
  have "psd n (\<lambda>i j. ?S i j - ?S ?p i * ?S ?p j / ?S ?p ?p)"
    using psd sym' piv(1) piv(3)[unfolded piv(2)] by (rule psd_downdate)
  from psd_diag[OF this iN] show "0 \<le> rdiag (rstep A n m s) ! i" by (simp only: val')
  have "0 \<le> ?S ?p i * ?S ?p i / ?S ?p ?p"
    using piv(3)[unfolded piv(2)] by simp
  then show "rdiag (rstep A n m s) ! i \<le> rdiag s ! i" unfolding val' dgi by simp
  show "0 \<le> rdiag s ! i" unfolding dgi using psd iN by (rule psd_diag)
qed

lemma pc_inv_step:
  assumes ok: "pass_ok A n K m s"
  shows "pc_inv A n K (Suc m) (rstep A n m s)"
proof -
  let ?p = "pi_m m (embed A s)" and ?I = "pi_i m (embed A s)"
  let ?S = "resid A (rL s) m"
  let ?s' = "rstep A n m s"
  from ok have inv: "pc_inv A n K m s" and mK: "m < K" and m: "m < n"
    and sym: "symmetric n (ent A)"
    by (simp_all add: pass_ok_def)
  from inv have p: "perm_ok n (rperm s)" and d: "length (rdiag s) = n" and Lr: "rmat K n (rL s)"
    and zero: "\<forall>r. m \<le> r \<and> r < K \<longrightarrow> (\<forall>i<n. rL s ! r ! i = 0)"
    and psd: "psd n ?S"
    and pre: "\<forall>i\<in>set (take m (rperm s)). \<forall>j<n. ?S i j = 0"
    by (simp_all add: pc_inv_def)
  note piv = pivot_positive[OF ok]
  note sh = pass_shape[OF p d m, of A]
  have sym': "symmetric n ?S" using sym by (rule resid_sym)
  have dpos: "0 < ?S ?p ?p" using piv(2,3) by simp
  have c1: "perm_ok n (rperm ?s')" using sh(1) by (simp add: rstep_simps(1))
  have c2: "length (rdiag ?s') = n" using d by (simp add: rstep_simps(3) length_scatter)
  have lenrow: "length (rL s ! m) = n" using Lr mK by (simp add: rmat_def)
  have c3: "rmat K n (rL ?s')"
    using Lr lenrow unfolding rstep_simps(2) rmat_def
    by (auto simp: length_scatter dest!: set_update_subset_insert[THEN subsetD])
  have c4: "\<forall>r. Suc m \<le> r \<and> r < K \<longrightarrow> (\<forall>i<n. rL ?s' ! r ! i = 0)"
    using zero by (simp add: rstep_simps(2))
  have "psd n (\<lambda>i j. ?S i j - ?S ?p i * ?S ?p j / ?S ?p ?p)"
    using psd sym' piv(1) dpos by (rule psd_downdate)
  then have c5: "psd n (resid A (rL ?s') (Suc m))"
    using psd_cong[of n "resid A (rL ?s') (Suc m)" "\<lambda>i j. ?S i j - ?S ?p i * ?S ?p j / ?S ?p ?p"]
      resid_step[OF ok] by simp
  have tk: "take (Suc m) (rperm ?s') = take m (rperm s) @ [?p]"
  proof -
    have "m < length (pivot_perm m (embed A s))" using sh(1) m by (simp add: perm_ok_def)
    then have "take (Suc m) (pivot_perm m (embed A s))
        = take m (pivot_perm m (embed A s)) @ [pivot_perm m (embed A s) ! m]"
      by (rule take_Suc_conv_app_nth)
    then show ?thesis by (simp add: rstep_simps(1) sh(2) pi_m_def)
  qed
  have c6: "\<forall>i\<in>set (take (Suc m) (rperm ?s')). \<forall>j<n. resid A (rL ?s') (Suc m) i j = 0"
  proof (intro ballI allI impI)
    fix i j assume i: "i \<in> set (take (Suc m) (rperm ?s'))" and j: "j < n"
    from i have "i \<in> set (take m (rperm s)) \<or> i = ?p" unfolding tk by auto
    then show "resid A (rL ?s') (Suc m) i j = 0"
    proof
      assume ip: "i \<in> set (take m (rperm s))"
      then have iN: "i < n" using p by (auto simp: perm_ok_def dest: in_set_takeD)
      have "?S ?p i = ?S i ?p" using sym' piv(1) iN by (simp add: symmetric_def)
      also have "\<dots> = 0" using pre ip piv(1) by blast
      finally have "?S ?p i = 0" .
      moreover have "?S i j = 0" using pre ip j by blast
      ultimately show ?thesis by (simp add: resid_step[OF ok iN j])
    next
      assume ip: "i = ?p"
      show ?thesis unfolding ip using dpos by (simp add: resid_step[OF ok piv(1) j])
    qed
  qed
  have c7: "\<forall>i\<in>set (drop (Suc m) (rperm ?s')). rdiag ?s' ! i = resid A (rL ?s') (Suc m) i i"
    using deflated_entries(1)[OF ok] by (simp add: rstep_simps(1) pi_i_def)
  have c8: "Suc m < n \<longrightarrow> rerr ?s' = sum_list (map (\<lambda>i. \<bar>rdiag ?s' ! i\<bar>) (drop (Suc m) (rperm ?s')))"
    by (simp add: rstep_simps(1) rstep_simps(4) pi_i_def)
  from c1 c2 c3 c4 c5 c6 c7 c8 show ?thesis unfolding pc_inv_def by blast
qed

lemma rerr_step:
  assumes ok: "pass_ok A n K m s"
  shows "rerr (rstep A n m s) \<le> rerr s"
proof (cases "m + 1 < n")
  case False
  then show ?thesis by (simp add: rstep_simps(4))
next
  case True
  let ?p = "pi_m m (embed A s)" and ?I = "pi_i m (embed A s)"
  from ok have inv: "pc_inv A n K m s" and m: "m < n" by (simp_all add: pass_ok_def)
  from inv have p: "perm_ok n (rperm s)" and d: "length (rdiag s) = n"
    and er: "rerr s = sum_list (map (\<lambda>i. \<bar>rdiag s ! i\<bar>) (drop m (rperm s)))"
    using m by (simp_all add: pc_inv_def)
  note sh = pass_shape[OF p d m, of A]
  note sel = pivot_selection[OF p d m, of A]
  have lenp: "length (rperm s) = n" "distinct (rperm s)" using p by (simp_all add: perm_ok_def)
  have "rerr (rstep A n m s) = sum_list (map (\<lambda>i. \<bar>rdiag (rstep A n m s) ! i\<bar>) ?I)"
    using True by (simp add: rstep_simps(4))
  also have "\<dots> \<le> sum_list (map (\<lambda>i. \<bar>rdiag s ! i\<bar>) ?I)"
  proof (rule sum_list_mono)
    fix i assume "i \<in> set ?I"
    from deflated_entries(2,3,4)[OF ok this]
    show "\<bar>rdiag (rstep A n m s) ! i\<bar> \<le> \<bar>rdiag s ! i\<bar>" by simp
  qed
  also have "\<dots> \<le> \<bar>rdiag s ! ?p\<bar> + sum_list (map (\<lambda>i. \<bar>rdiag s ! i\<bar>) ?I)" by simp
  also have "\<dots> = sum_list (map (\<lambda>i. \<bar>rdiag s ! i\<bar>) (drop m (pivot_perm m (embed A s))))"
    by (simp add: sh(4))
  also have "\<dots> = sum_list (map (\<lambda>i. \<bar>rdiag s ! i\<bar>) (drop m (rperm s)))"
  proof -
    have "distinct (rperm s)" "m \<le> max_diag_indices m (embed A s)"
      "max_diag_indices m (embed A s) < length (rperm s)"
      using lenp sel by simp_all
    from sum_list_suffix_swap[OF this, of "\<lambda>i. \<bar>rdiag s ! i\<bar>"]
    show ?thesis by (simp add: pivot_perm_def)
  qed
  finally show ?thesis by (simp add: er)
qed

lemma ncols_Fin: "rmat n n A \<Longrightarrow> ncols (map (map Fin) A) = n"
  by (cases A) (auto simp: ncols_def rmat_def)

lemma init_embed:
  assumes "rmat n n A"
  shows "pc_init K n (map (map Fin) A) = embed A (rinit K n A)"
proof -
  have "map (\<lambda>i. map (map Fin) A ! i ! i) [0..<n] = map Fin (map (\<lambda>i. A ! i ! i) [0..<n])"
    using assms by (simp add: rmat_def)
  then have dg: "diag_t (map (map Fin) A) = map Fin (map (\<lambda>i. A ! i ! i) [0..<n])"
    by (simp only: diag_t_def ncols_Fin[OF assms])
  show ?thesis
    unfolding pc_init_def dg norm1_Fin
    by (simp add: embed_def rinit_def)
qed

lemma init_inv:
  assumes A: "rmat n n A" and psd: "psd n (ent A)" and K: "K \<le> n"
  shows "pc_inv A n K 0 (rinit K n A)"
proof -
  have r: "resid A Lr 0 i j = ent A i j" for Lr i j by (simp add: resid_def ent_def)
  have e: "sum_list (map abs (map (\<lambda>i. A ! i ! i) [0..<n]))
      = sum_list (map (\<lambda>i. \<bar>map (\<lambda>i. A ! i ! i) [0..<n] ! i\<bar>) [0..<n])"
    by (rule arg_cong[where f = sum_list], rule nth_equalityI) simp_all
  have ps: "psd n (resid A (replicate K (replicate n 0)) 0)"
    using psd psd_cong[of n "resid A (replicate K (replicate n 0)) 0" "ent A"] by (simp add: r)
  have c1: "perm_ok n (rperm (rinit K n A))"
    by (auto simp: rinit_def perm_ok_def)
  have c3: "rmat K n (rL (rinit K n A))" by (simp add: rinit_def rmat_def)
  have c7: "\<forall>i\<in>set (drop 0 (rperm (rinit K n A))).
      rdiag (rinit K n A) ! i = resid A (rL (rinit K n A)) 0 i i"
    by (simp add: rinit_def r ent_def)
  have c8: "rerr (rinit K n A)
      = sum_list (map (\<lambda>i. \<bar>rdiag (rinit K n A) ! i\<bar>) (drop 0 (rperm (rinit K n A))))"
    using e by (simp add: rinit_def)
  have c4: "\<forall>r. 0 \<le> r \<and> r < K \<longrightarrow> (\<forall>i<n. rL (rinit K n A) ! r ! i = 0)"
    by (simp add: rinit_def)
  have c2: "length (rdiag (rinit K n A)) = n" by (simp add: rinit_def)
  have c5: "psd n (resid A (rL (rinit K n A)) 0)" using ps by (simp add: rinit_def)
  from c1 c2 c3 c4 c5 c7 c8 show ?thesis unfolding pc_inv_def by simp
qed

lemma pass_embed:
  assumes ok: "pass_ok A n K m s"
  shows "pc_step n m (embed A s) = embed A (rstep A n m s)"
proof -
  from ok have inv: "pc_inv A n K m s" and mK: "m < K" and m: "m < n" and A: "rmat n n A"
    by (simp_all add: pass_ok_def)
  from inv have p: "perm_ok n (rperm s)" and d: "length (rdiag s) = n" and Lr: "rmat K n (rL s)"
    by (simp_all add: pc_inv_def)
  show ?thesis using p d A Lr m mK pivot_positive(3)[OF ok] by (rule step_embed)
qed

lemma pc_loop_inv:
  assumes A: "rmat n n A" and sym: "symmetric n (ent A)" and K: "K \<le> n" and tol: "0 \<le> error_tol"
    and inv: "pc_inv A n K m s" and m: "m \<le> K"
  shows "\<exists>m' s'. pc_loop K error_tol n m [embed A s] = Inr (m', [embed A s'])
            \<and> m' \<le> K \<and> pc_inv A n K m' s' \<and> (m' = K \<or> rerr s' \<le> error_tol)"
  using inv m
proof (induction "K - m" arbitrary: m s)
  case 0
  then have "m = K" by simp
  then show ?case using "0.prems" by auto
next
  case (Suc d)
  then have mK: "m < K" by simp
  have mx: "max_t (map errors [embed A s]) = Inr (Fin (rerr s))" by (simp add: max_t_def)
  show ?case
  proof (cases "error_tol < rerr s")
    case False
    then have "pc_loop K error_tol n m [embed A s] = Inr (m, [embed A s])"
      using mK mx by simp
    with False Suc.prems show ?thesis by auto
  next
    case True
    then have ok: "pass_ok A n K m s"
      using A sym K tol Suc.prems(1) mK by (simp add: pass_ok_def)
    have step: "map (pc_step n m) [embed A s] = [embed A (rstep A n m s)]"
      by (simp add: pass_embed[OF ok])
    have "d = K - Suc m" using Suc.hyps(2) by simp
    from Suc.hyps(1)[OF this pc_inv_step[OF ok]] mK obtain m' s' where
      h: "pc_loop K error_tol n (Suc m) [embed A (rstep A n m s)] = Inr (m', [embed A s'])"
         "m' \<le> K" "pc_inv A n K m' s'" "m' = K \<or> rerr s' \<le> error_tol"
      by auto
    have "pc_loop K error_tol n m [embed A s]
        = pc_loop K error_tol n (Suc m) (map (pc_step n m) [embed A s])"
      using mK mx True by (subst pc_loop.simps) simp
    with h show ?thesis unfolding step by auto
  qed
qed

lemma pc_reach_inv:
  assumes A: "rmat n n A" and sym: "symmetric n (ent A)" and K: "K \<le> n" and tol: "0 \<le> error_tol"
    and reach: "pc_reach K error_tol n [embed A s0] m sts" and inv: "pc_inv A n K 0 s0"
  shows "\<exists>s. sts = [embed A s] \<and> pc_inv A n K m s"
  using reach
proof (induction rule: pc_reach.induct)
  case start
  then show ?case using inv by blast
next
  case (iter m sts mx)
  then obtain s where s: "sts = [embed A s]" "pc_inv A n K m s" by blast
  with iter.hyps have "mx = Fin (rerr s)" by (simp add: max_t_def)
  with iter.hyps have "error_tol < rerr s" by simp
  then have ok: "pass_ok A n K m s"
    using A sym K tol s(2) iter.hyps(2) by (simp add: pass_ok_def)
  have "map (pc_step n m) sts = [embed A (rstep A n m s)]"
    by (simp add: s(1) pass_embed[OF ok])
  then show ?case
    using pc_inv_step[OF ok] by (intro exI[of _ "rstep A n m s"] conjI)
qed

lemma sum_list_abs_nonneg:
  fixes f :: "nat \<Rightarrow> real"
  shows "0 \<le> sum_list (map (\<lambda>i. \<bar>f i\<bar>) xs)"
  by (induction xs) simp_all

lemma sum_list_abs_zero:
  fixes f :: "nat \<Rightarrow> real"
  assumes "sum_list (map (\<lambda>i. \<bar>f i\<bar>) xs) \<le> 0"
  shows "\<forall>i\<in>set xs. f i = 0"
  using assms
proof (induction xs)
  case Nil
  then show ?case by simp
next
  case (Cons x xs)
  have "0 \<le> sum_list (map (\<lambda>i. \<bar>f i\<bar>) xs)" by (rule sum_list_abs_nonneg)
  with Cons.prems have "\<bar>f x\<bar> \<le> 0" "sum_list (map (\<lambda>i. \<bar>f i\<bar>) xs) \<le> 0" by simp_all
  with Cons.IH show ?case by simp
qed

lemma resid_all_zero:
  assumes sym: "symmetric n (ent A)" and inv: "pc_inv A n K m s" and m: "m \<le> n"
    and fin: "m = n \<or> rerr s \<le> 0"
  shows "\<forall>i<n. \<forall>j<n. resid A (rL s) m i j = 0"
proof -
  let ?S = "resid A (rL s) m"
  from inv have p: "perm_ok n (rperm s)" and psd: "psd n ?S"
    and pre: "\<forall>i\<in>set (take m (rperm s)). \<forall>j<n. ?S i j = 0"
    and dg: "\<forall>i\<in>set (drop m (rperm s)). rdiag s ! i = ?S i i"
    and er: "m < n \<longrightarrow> rerr s = sum_list (map (\<lambda>i. \<bar>rdiag s ! i\<bar>) (drop m (rperm s)))"
    by (simp_all add: pc_inv_def)
  have sym': "symmetric n ?S" using sym by (rule resid_sym)
  have diag0: "?S i i = 0" if i: "i < n" for i
  proof -
    have "set (rperm s) = set (take m (rperm s)) \<union> set (drop m (rperm s))"
      by (metis append_take_drop_id set_append)
    moreover have "i \<in> set (rperm s)" using p i by (simp add: perm_ok_def)
    ultimately have "i \<in> set (take m (rperm s)) \<or> i \<in> set (drop m (rperm s))" by blast
    then show ?thesis
    proof
      assume "i \<in> set (take m (rperm s))"
      with pre i show ?thesis by blast
    next
      assume suf: "i \<in> set (drop m (rperm s))"
      then have mn: "m < n" using p m by (cases "m < n") (auto simp: perm_ok_def)
      with fin er have e0: "sum_list (map (\<lambda>i. \<bar>rdiag s ! i\<bar>) (drop m (rperm s))) \<le> 0" by simp
      from sum_list_abs_zero[OF e0] suf have "rdiag s ! i = 0" by blast
      with dg suf show ?thesis by simp
    qed
  qed
  show ?thesis
    using psd_zero_diag[OF psd sym'] diag0 by blast
qed

lemma full_recovery:
  assumes A: "rmat n n A" and sym: "symmetric n (ent A)" and psd: "psd n (ent A)"
  shows "\<exists>m Lr. pivoted_cholesky [map (map Fin) A] (int n) 0 = Inr [map (map Fin) Lr]
            \<and> m \<le> n \<and> rmat m n Lr
            \<and> (\<forall>i<n. \<forall>j<n. (\<Sum>r<m. Lr ! r ! i * Lr ! r ! j) = A ! i ! j)"
proof -
  have inv0: "pc_inv A n n 0 (rinit n n A)" using A psd by (intro init_inv) simp_all
  from pc_loop_inv[OF A sym _ _ inv0, of 0] obtain m s where
    loop: "pc_loop n 0 n 0 [embed A (rinit n n A)] = Inr (m, [embed A s])"
    and m: "m \<le> n" and inv: "pc_inv A n n m s" and fin: "m = n \<or> rerr s \<le> 0"
    by auto
  have res: "pivoted_cholesky [map (map Fin) A] (int n) 0 = Inr [map (map Fin) (take m (rL s))]"
    using loop by (simp add: pivoted_cholesky_def Let_def ncols_Fin[OF A] init_embed[OF A] take_map)
  from inv have Lr: "rmat n n (rL s)" by (simp add: pc_inv_def)
  have tk: "rmat m n (take m (rL s))"
    using Lr m by (auto simp: rmat_def dest: in_set_takeD)
  have "(\<Sum>r<m. take m (rL s) ! r ! i * take m (rL s) ! r ! j) = A ! i ! j" if "i < n" "j < n" for i j
  proof -
    have "resid A (rL s) m i j = 0" using resid_all_zero[OF sym inv m fin] that by blast
    then have "(\<Sum>r<m. rL s ! r ! i * rL s ! r ! j) = A ! i ! j" by (simp add: resid_def)
    moreover have "(\<Sum>r<m. take m (rL s) ! r ! i * take m (rL s) ! r ! j)
        = (\<Sum>r<m. rL s ! r ! i * rL s ! r ! j)"
      by (intro sum.cong refl) simp
    ultimately show ?thesis by simp
  qed
  with res m tk show ?thesis by blast
qed

lemma errors_decrease:
  assumes A: "rmat n n A" and sym: "symmetric n (ent A)" and psd: "psd n (ent A)"
    and tol: "0 \<le> error_tol" and k: "k = nat (min max_iter (int n))"
    and reach: "pc_reach k error_tol n [pc_init k n (map (map Fin) A)] m sts"
    and mk: "m < k" and mx: "max_t (map errors sts) = Inr mx" and gt: "fl_gt mx error_tol"
  shows "\<forall>st\<in>set sts. fl_le (errors (pc_step n m st)) (errors st)"
proof -
  have kn: "k \<le> n" using k by simp
  have inv0: "pc_inv A n k 0 (rinit k n A)" using A psd kn by (rule init_inv)
  from pc_reach_inv[OF A sym kn tol reach[unfolded init_embed[OF A]] inv0]
  obtain s where s: "sts = [embed A s]" "pc_inv A n k m s" by blast
  with mx have "mx = Fin (rerr s)" by (simp add: max_t_def)
  with gt have "error_tol < rerr s" by simp
  then have ok: "pass_ok A n k m s"
    using A sym kn tol s(2) mk by (simp add: pass_ok_def)
  show ?thesis
    using rerr_step[OF ok] by (simp add: s(1) pass_embed[OF ok])
qed

lemma example_psd: "psd 2 (ent [[1, 0], [0, 4]])"
  unfolding psd_def quad_form_def
proof
  fix x :: "nat \<Rightarrow> real"
  have "0 \<le> x 0 * x 0 + 4 * (x (Suc 0) * x (Suc 0))" by simp
  then show "0 \<le> (\<Sum>i<2. \<Sum>j<2. x i * ent [[1, 0], [0, 4]] i j * x j)"
    by (simp add: numeral_2_eq_2 ent_def algebra_simps)
qed

lemma example_symmetric: "symmetric 2 (ent [[1, 0], [0, 4]])"
  by (auto simp: symmetric_def ent_def numeral_2_eq_2 less_Suc_eq)

lemma example_pivoted_cholesky:
  "pivoted_cholesky [[[Fin 1, Fin 0], [Fin 0, Fin 4]]] 2 0 = Inr [[[Fin 0, Fin 2], [Fin 1, Fin 0]]]"
  by (simp add: pivoted_cholesky_def pc_defs tensor_defs Let_def upt_2 numeral_2_eq_2)

text \<open>
  Claim C4: for a symmetric positive semi-definite \<open>n \<times> n\<close> matrix \<open>A\<close>,
  \<open>pivoted_cholesky\<close> with \<open>max_iter = n\<close> and \<open>error_tol = 0\<close> returns a factor \<open>L\<close>
  with \<open>L\<^sup>T L = A\<close>, entry by entry and in exact arithmetic. Each row of \<open>L\<close> is written
  through the permutation, so the columns of the returned factor stand at the indices of
  \<open>A\<close>: the inverse of the permutation is applied by the routine itself.
\<close>

theorem pivoted_cholesky_full_rank_recovery:
  assumes "rmat n n A" and "symmetric n (ent A)" and "psd n (ent A)"
  shows "\<exists>m Lr. pivoted_cholesky [map (map Fin) A] (int n) 0 = Inr [map (map Fin) Lr]
            \<and> m \<le> n \<and> rmat m n Lr
            \<and> (\<forall>i<n. \<forall>j<n. (\<Sum>r<m. Lr ! r ! i * Lr ! r ! j) = A ! i ! j)"
  using assms by (rule full_recovery)

theorem pivoted_cholesky_full_rank_recovery_witness:
  "rmat 2 2 [[1, 0], [0, 4]] \<and> symmetric 2 (ent [[1, 0], [0, 4]]) \<and> psd 2 (ent [[1, 0], [0, 4]])
   \<and> (\<exists>m Lr. pivoted_cholesky [map (map Fin) [[1, 0], [0, 4]]] 2 0 = Inr [map (map Fin) Lr]
          \<and> m \<le> 2 \<and> rmat m 2 Lr
          \<and> (\<forall>i<2. \<forall>j<2. (\<Sum>r<m. Lr ! r ! i * Lr ! r ! j) = [[1, 0], [0, 4]] ! i ! j))"
proof -
  have A: "rmat 2 2 [[1, 0], [0, 4 :: real]]" by (simp add: rmat_def)
  from pivoted_cholesky_full_rank_recovery[OF A example_symmetric example_psd]
    A example_symmetric example_psd
  show ?thesis by simp
qed

text \<open>
  Claim C8, as amended: in exact arithmetic, for an unbatched symmetric positive
  semi-definite matrix and \<open>error_tol \<ge> 0\<close>, whenever the loop makes a further pass
  from a state of the run, the error value after the pass is at most the error value
  before it.
\<close>

theorem errors_non_increasing_on_psd:
  assumes "rmat n n A" and "symmetric n (ent A)" and "psd n (ent A)"
    and "0 \<le> error_tol" and "k = nat (min max_iter (int n))"
    and "pc_reach k error_tol n [pc_init k n (map (map Fin) A)] m sts"
    and "m < k" and "max_t (map errors sts) = Inr mx" and "fl_gt mx error_tol"
  shows "\<forall>st\<in>set sts. fl_le (errors (pc_step n m st)) (errors st)"
  using assms by (rule errors_decrease)

theorem errors_non_increasing_on_psd_witness:
  "rmat 2 2 [[1, 0], [0, 4]] \<and> symmetric 2 (ent [[1, 0], [0, 4]]) \<and> psd 2 (ent [[1, 0], [0, 4]])
   \<and> pc_reach 2 0 2 [pc_init 2 2 (map (map Fin) [[1, 0], [0, 4]])] 0
        [pc_init 2 2 (map (map Fin) [[1, 0], [0, 4]])]
   \<and> fl_gt (Fin 5) 0
   \<and> fl_le (errors (pc_step 2 0 (pc_init 2 2 (map (map Fin) [[1, 0], [0, 4]]))))
        (errors (pc_init 2 2 (map (map Fin) [[1, 0], [0, 4]])))"
proof -
  have A: "rmat 2 2 [[1, 0], [0, 4 :: real]]" by (simp add: rmat_def)
  have k: "(2::nat) = nat (min 2 (int 2))" by simp
  have r: "pc_reach 2 0 2 [pc_init 2 2 (map (map Fin) [[1, 0], [0, 4]])] 0
        [pc_init 2 2 (map (map Fin) [[1, 0], [0, 4]])]"
    by (rule pc_reach.start)
  have mx: "max_t (map errors [pc_init 2 2 (map (map Fin) [[1, 0], [0, 4]])]) = Inr (Fin 5)"
    using example_init by (simp add: max_t_def)
  have gt: "fl_gt (Fin 5) 0" by simp
  have m: "(0::nat) < 2" by simp
  have tol: "(0::real) \<le> 0" by simp
  from errors_non_increasing_on_psd[OF A example_symmetric example_psd tol k r m mx gt]
    A example_symmetric example_psd r gt
  show ?thesis by simp
qed

text \<open>
  The claim as stated, for every input matrix, fails: on the symmetric matrix
  \<open>[[1,10],[10,1]]\<close>, which is not positive semi-definite, the error is \<open>2\<close> before the
  first pass and \<open>99\<close> after it.
\<close>

theorem errors_increase_counterexample:
  "pc_reach 2 0 2 [pc_init 2 2 [[Fin 1, Fin 10], [Fin 10, Fin 1]]] 0
        [pc_init 2 2 [[Fin 1, Fin 10], [Fin 10, Fin 1]]]
   \<and> max_t (map errors [pc_init 2 2 [[Fin 1, Fin 10], [Fin 10, Fin 1]]]) = Inr (Fin 2)
   \<and> fl_gt (Fin 2) 0
   \<and> errors (pc_step 2 0 (pc_init 2 2 [[Fin 1, Fin 10], [Fin 10, Fin 1]])) = Fin 99
   \<and> \<not> fl_le (errors (pc_step 2 0 (pc_init 2 2 [[Fin 1, Fin 10], [Fin 10, Fin 1]])))
          (errors (pc_init 2 2 [[Fin 1, Fin 10], [Fin 10, Fin 1]]))"
proof -
  have i: "pc_init 2 2 [[Fin 1, Fin 10], [Fin 10, Fin 1]] =
     \<lparr>matrix = [[Fin 1, Fin 10], [Fin 10, Fin 1]], matrix_diag = [Fin 1, Fin 1],
      permutation = [0, 1], L = [[Fin 0, Fin 0], [Fin 0, Fin 0]], errors = Fin 2\<rparr>"
    by (simp add: pc_defs tensor_defs upt_2 numeral_2_eq_2)
  have s: "errors (pc_step 2 0 (pc_init 2 2 [[Fin 1, Fin 10], [Fin 10, Fin 1]])) = Fin 99"
    unfolding i by (simp add: pc_defs tensor_defs Let_def)
  show ?thesis
    unfolding s by (simp add: i max_t_def pc_reach.start)
qed

end
